theory Spec2Isabelle
  imports Main "HOL-Library.Word"
begin

section \<open>Values of the program\<close>

text \<open>
  The package \<^verbatim>\<open>core\<close> of memguard (file \<^verbatim>\<open>core/buffer.go\<close>) is embedded as pure
  functions over an explicit program state. The mutexes of \<^verbatim>\<open>Buffer\<close> and
  \<^verbatim>\<open>BufferList\<close> are left out: every function below is one critical section, run to its
  end before the next one starts.
\<close>

type_synonym byte = "8 word"

text \<open>
  Go's \<^verbatim>\<open>int\<close> is a 64-bit two's complement integer on the platforms the package targets.
  It is an \<open>int\<close> here, and every arithmetic operation of the source wraps its result.
\<close>

definition wrap64 :: "int \<Rightarrow> int" where
  "wrap64 x = (x + 9223372036854775808) mod 18446744073709551616 - 9223372036854775808"

definition is_int64 :: "int \<Rightarrow> bool" where
  "is_int64 x \<longleftrightarrow> - 9223372036854775808 \<le> x \<and> x < 9223372036854775808"

definition go_add :: "int \<Rightarrow> int \<Rightarrow> int" where
  "go_add a b = wrap64 (a + b)"

definition go_sub :: "int \<Rightarrow> int \<Rightarrow> int" where
  "go_sub a b = wrap64 (a - b)"

definition go_mul :: "int \<Rightarrow> int \<Rightarrow> int" where
  "go_mul a b = wrap64 (a * b)"

text \<open>
  A \<^verbatim>\<open>[]byte\<close> is a view into a mapped region: the region, the offset of its first byte
  and its length. \<open>None\<close> is the nil slice.
\<close>

record span =
  sp_region :: nat
  sp_off :: nat
  sp_len :: nat

type_synonym byteslice = "span option"

text \<open>A \<^verbatim>\<open>*Buffer\<close> is the address of a Buffer object; \<open>None\<close> is the nil pointer.\<close>

type_synonym bufptr = "nat option"

text \<open>The struct \<^verbatim>\<open>Buffer\<close>, without its mutex.\<close>

record Buffer =
  alive :: bool
  mutable :: bool
  Data :: byteslice
  memory :: byteslice
  preguard :: byteslice
  inner :: byteslice
  postguard :: byteslice
  canaryval :: byteslice
  canaryref :: byteslice

record BufferState =
  IsMutable :: bool
  IsDestroyed :: bool

text \<open>
  A \<^verbatim>\<open>[]*Buffer\<close> is a slice header: the backing array, the length and the capacity.
  Every slice the registry holds starts at the first element of its array, so the header
  has no offset. \<open>None\<close> is the nil slice.
\<close>

record ptrslice =
  ps_arr :: nat
  ps_len :: nat
  ps_cap :: nat

datatype error = ErrInvalidLength | ErrDestroyed

datatype os_error = AllocFailed | ProtectFailed | LockFailed | UnlockFailed | FreeFailed | RandFailed

datatype panic_value = PanicErr os_error | PanicMsg string

datatype prot = NoAccess | ReadOnly | ReadWrite

text \<open>
  What the program does to the outside world is recorded in a trace: the calls to the
  operating system and to the random source, every wipe of a span, and every invocation
  of the fatal handler.
\<close>

datatype event =
  EvAlloc int
  | EvProtect byteslice prot
  | EvLock byteslice
  | EvUnlock byteslice
  | EvFree byteslice
  | EvRand byteslice
  | EvWipe byteslice
  | EvPanic panic_value

text \<open>
  The environment of a run: the page size, whether the operating system grants a call
  (given everything that happened before), the bytes the random source delivers, and the
  capacity \<^verbatim>\<open>append\<close> chooses when it has to move a slice to a larger array.
\<close>

record env =
  pageSize :: int
  os_ok :: "event list \<Rightarrow> event \<Rightarrow> bool"
  rand_byte :: "event list \<Rightarrow> nat \<Rightarrow> byte"
  growcap :: "nat \<Rightarrow> nat \<Rightarrow> nat"

text \<open>
  The program state: the Buffer objects, the mapped regions, the backing arrays of
  \<^verbatim>\<open>[]*Buffer\<close> slices, the field \<^verbatim>\<open>list\<close> of the global \<^verbatim>\<open>buffers\<close>, and the trace.
\<close>

record state =
  heap :: "nat \<Rightarrow> Buffer option"
  next_buf :: nat
  mem :: "nat \<Rightarrow> byte list option"
  next_region :: nat
  parrays :: "nat \<Rightarrow> bufptr list option"
  next_array :: nat
  buffers :: "ptrslice option"
  trace :: "event list"

definition init_state :: state where
  "init_state = \<lparr>heap = Map.empty, next_buf = 0, mem = Map.empty, next_region = 0,
     parrays = Map.empty, next_array = 0, buffers = None, trace = []\<rparr>"

section \<open>The registry: BufferList\<close>

text \<open>The elements a slice shows: the first \<open>ps_len\<close> elements of its backing array.\<close>

definition slice_elems :: "state \<Rightarrow> ptrslice option \<Rightarrow> bufptr list" where
  "slice_elems s sl =
     (case sl of None \<Rightarrow> []
      | Some h \<Rightarrow> (case parrays s (ps_arr h) of None \<Rightarrow> [] | Some xs \<Rightarrow> take (ps_len h) xs))"

text \<open>
  \<^verbatim>\<open>append(sl, x)\<close>: in place when the capacity allows it, else into a fresh array that
  is large enough.
\<close>

definition new_array :: "bufptr list \<Rightarrow> state \<Rightarrow> nat \<times> state" where
  "new_array xs s =
     (next_array s, s\<lparr>parrays := (parrays s)(next_array s \<mapsto> xs), next_array := Suc (next_array s)\<rparr>)"

definition go_append :: "env \<Rightarrow> ptrslice option \<Rightarrow> bufptr \<Rightarrow> state \<Rightarrow> ptrslice option \<times> state" where
  "go_append e sl x s =
     (case sl of
        None \<Rightarrow>
          (let c = max 1 (growcap e 0 1);
               (a, s1) = new_array (x # replicate (c - 1) None) s
           in (Some \<lparr>ps_arr = a, ps_len = 1, ps_cap = c\<rparr>, s1))
      | Some h \<Rightarrow>
          (if ps_len h < ps_cap h then
             (Some (h\<lparr>ps_len := Suc (ps_len h)\<rparr>),
              s\<lparr>parrays := (parrays s)(ps_arr h :=
                   map_option (\<lambda>xs. xs[ps_len h := x]) (parrays s (ps_arr h)))\<rparr>)
           else
             (let c = max (Suc (ps_len h)) (growcap e (ps_cap h) (Suc (ps_len h)));
                  (a, s1) = new_array (slice_elems s sl @ x # replicate (c - Suc (ps_len h)) None) s
              in (Some \<lparr>ps_arr = a, ps_len = Suc (ps_len h), ps_cap = c\<rparr>, s1))))"

definition BufferList_Add :: "env \<Rightarrow> bufptr \<Rightarrow> state \<Rightarrow> state" where
  "BufferList_Add e b s = (case go_append e (buffers s) b s of (sl, s1) \<Rightarrow> s1\<lparr>buffers := sl\<rparr>)"

text \<open>The loop of \<^verbatim>\<open>Remove\<close>: the index of the first element equal to \<open>b\<close>.\<close>

fun first_index :: "bufptr list \<Rightarrow> bufptr \<Rightarrow> nat \<Rightarrow> nat option" where
  "first_index [] b i = None"
| "first_index (v # vs) b i = (if v = b then Some i else first_index vs b (Suc i))"

text \<open>
  \<^verbatim>\<open>append(l.list[:i], l.list[i+1:]...)\<close>: the result has one element less than the
  capacity of \<^verbatim>\<open>l.list[:i]\<close> admits, so the elements behind index \<open>i\<close> are moved down by one
  inside the same backing array; the cell behind the new last element keeps its old value.
\<close>

definition shift_down :: "nat \<Rightarrow> nat \<Rightarrow> bufptr list \<Rightarrow> bufptr list" where
  "shift_down i n xs = take i xs @ take (n - Suc i) (drop (Suc i) xs) @ drop (n - 1) xs"

definition BufferList_Remove :: "bufptr \<Rightarrow> state \<Rightarrow> state" where
  "BufferList_Remove b s =
     (case first_index (slice_elems s (buffers s)) b 0 of
        None \<Rightarrow> s
      | Some i \<Rightarrow>
          (case buffers s of
             None \<Rightarrow> s
           | Some h \<Rightarrow>
               s\<lparr>parrays := (parrays s)(ps_arr h :=
                    map_option (shift_down i (ps_len h)) (parrays s (ps_arr h))),
                 buffers := Some (h\<lparr>ps_len := ps_len h - 1\<rparr>)\<rparr>))"

fun exists_loop :: "bufptr list \<Rightarrow> bufptr \<Rightarrow> bool" where
  "exists_loop [] b = False"
| "exists_loop (v # vs) b = (if b = v then True else exists_loop vs b)"

definition BufferList_Exists :: "state \<Rightarrow> bufptr \<Rightarrow> bool" where
  "BufferList_Exists s b = exists_loop (slice_elems s (buffers s)) b"

text \<open>
  \<^verbatim>\<open>Empty\<close>: \<^verbatim>\<open>make\<close> a slice of nil pointers as long as the list, \<^verbatim>\<open>copy\<close> the list
  into it, set the list to nil and return the copy.
\<close>

definition go_copy :: "bufptr list \<Rightarrow> bufptr list \<Rightarrow> bufptr list" where
  "go_copy dst src = take (min (length dst) (length src)) src @ drop (min (length dst) (length src)) dst"

definition BufferList_Empty :: "state \<Rightarrow> ptrslice option \<times> state" where
  "BufferList_Empty s =
     (let n = (case buffers s of None \<Rightarrow> 0 | Some h \<Rightarrow> ps_len h);
          (a, s1) = new_array (go_copy (replicate n None) (slice_elems s (buffers s))) s
      in (Some \<lparr>ps_arr = a, ps_len = n, ps_cap = n\<rparr>, s1\<lparr>buffers := None\<rparr>))"

section \<open>Results of a call\<close>

text \<open>
  A call returns a result and a state, or it ends in the fatal handler (\<open>Fatal\<close>, with the
  state the handler was invoked in), or the Go runtime stops it (\<open>RuntimePanic\<close>: a nil
  dereference, an index out of range, an access to memory that is not mapped).
\<close>

datatype 'a outcome = Returned 'a state | Fatal state | RuntimePanic

definition then_do :: "(state \<Rightarrow> 'a outcome) \<Rightarrow> ('a \<Rightarrow> state \<Rightarrow> 'b outcome) \<Rightarrow> state \<Rightarrow> 'b outcome" where
  "then_do m f s = (case m s of Returned x s1 \<Rightarrow> f x s1 | Fatal s1 \<Rightarrow> Fatal s1 | RuntimePanic \<Rightarrow> RuntimePanic)"

definition need :: "'a option \<Rightarrow> state \<Rightarrow> 'a outcome" where
  "need x s = (case x of None \<Rightarrow> RuntimePanic | Some v \<Rightarrow> Returned v s)"

definition need_state :: "state option \<Rightarrow> unit outcome" where
  "need_state x = (case x of None \<Rightarrow> RuntimePanic | Some s1 \<Rightarrow> Returned () s1)"

section \<open>Bytes of mapped regions\<close>

definition slice_len :: "byteslice \<Rightarrow> nat" where
  "slice_len sl = (case sl of None \<Rightarrow> 0 | Some sp \<Rightarrow> sp_len sp)"

text \<open>Reading a slice; \<open>None\<close> when some byte of it is not mapped.\<close>

definition load :: "state \<Rightarrow> byteslice \<Rightarrow> byte list option" where
  "load s sl =
     (case sl of None \<Rightarrow> Some []
      | Some sp \<Rightarrow>
          (case mem s (sp_region sp) of None \<Rightarrow> None
           | Some bs \<Rightarrow>
               if sp_off sp + sp_len sp \<le> length bs
               then Some (take (sp_len sp) (drop (sp_off sp) bs)) else None))"

text \<open>Writing \<open>ys\<close> over the first bytes of a slice; \<open>None\<close> when the slice is not mapped.\<close>

definition store :: "byteslice \<Rightarrow> byte list \<Rightarrow> state \<Rightarrow> state option" where
  "store sl ys s =
     (case sl of None \<Rightarrow> (if ys = [] then Some s else None)
      | Some sp \<Rightarrow>
          (case mem s (sp_region sp) of None \<Rightarrow> None
           | Some bs \<Rightarrow>
               if sp_off sp + sp_len sp \<le> length bs \<and> length ys \<le> sp_len sp
               then Some (s\<lparr>mem := (mem s)(sp_region sp \<mapsto>
                      take (sp_off sp) bs @ ys @ drop (sp_off sp + length ys) bs)\<rparr>)
               else None))"

text \<open>
  \<^verbatim>\<open>&sl[i]\<close>: the address of element \<open>i\<close>, a region and an offset; the runtime checks the
  index.
\<close>

definition index_addr :: "byteslice \<Rightarrow> int \<Rightarrow> (nat \<times> nat) option" where
  "index_addr sl i =
     (case sl of None \<Rightarrow> None
      | Some sp \<Rightarrow>
          if 0 \<le> i \<and> i < int (sp_len sp) then Some (sp_region sp, sp_off sp + nat i) else None)"

section \<open>Functions of the repository that the file calls\<close>

text \<open>
  Modelled from the spec: \<^verbatim>\<open>roundToPageSize\<close> is not among the sources. The spec writes
  \<^verbatim>\<open>inner_len = roundUp(size + 32, P)\<close>: the least multiple of the page size that is not
  below the argument. The result is a Go \<^verbatim>\<open>int\<close>.
\<close>

definition roundToPageSize :: "env \<Rightarrow> int \<Rightarrow> int" where
  "roundToPageSize e n = wrap64 ((n + pageSize e - 1) div pageSize e * pageSize e)"

text \<open>
  Modelled from the spec: \<^verbatim>\<open>getBytes\<close> is not among the sources. The spec has \<^verbatim>\<open>New\<close>
  derive its sub-spans from the allocation: the slice of the given length that starts at
  the given address.
\<close>

definition getBytes :: "nat \<times> nat \<Rightarrow> int \<Rightarrow> byteslice" where
  "getBytes p n = Some \<lparr>sp_region = fst p, sp_off = snd p, sp_len = nat n\<rparr>"

text \<open>
  Modelled from the spec: package \<^verbatim>\<open>crypto\<close> is not among the sources. \<^verbatim>\<open>Equal(a, b)\<close>
  is equality of the two byte strings, \<^verbatim>\<open>Copy(dst, src)\<close> copies
  \<^verbatim>\<open>min(len(dst), len(src))\<close> bytes, and \<^verbatim>\<open>MemClr\<close> (the spec's Wipe) overwrites every
  byte of the span with zero.
\<close>

definition crypto_Equal :: "state \<Rightarrow> byteslice \<Rightarrow> byteslice \<Rightarrow> bool option" where
  "crypto_Equal s x y =
     (case load s x of None \<Rightarrow> None
      | Some xs \<Rightarrow> (case load s y of None \<Rightarrow> None | Some ys \<Rightarrow> Some (xs = ys)))"

definition crypto_Copy :: "byteslice \<Rightarrow> byteslice \<Rightarrow> state \<Rightarrow> state option" where
  "crypto_Copy dst src s =
     (case load s src of None \<Rightarrow> None
      | Some ys \<Rightarrow> store dst (take (min (slice_len dst) (slice_len src)) ys) s)"

definition crypto_MemClr :: "byteslice \<Rightarrow> state \<Rightarrow> state option" where
  "crypto_MemClr sl s =
     (case store sl (replicate (slice_len sl) 0) s of None \<Rightarrow> None
      | Some s1 \<Rightarrow> Some (s1\<lparr>trace := trace s1 @ [EvWipe sl]\<rparr>))"

text \<open>
  Modelled from the spec: package \<^verbatim>\<open>memcall\<close> is not among the sources. \<^verbatim>\<open>Alloc(n)\<close>
  gives a fresh span of length \<open>n\<close> or fails on the operating system's refusal (no span has
  a negative length); the bytes of a fresh mapping are zero. \<^verbatim>\<open>Protect\<close>, \<^verbatim>\<open>Lock\<close> and
  \<^verbatim>\<open>Unlock\<close> succeed or fail and change no byte; \<^verbatim>\<open>Free\<close> releases the mapping. Each
  call is recorded in the trace, and the environment decides whether it is granted.
\<close>

definition memcall_Alloc :: "env \<Rightarrow> int \<Rightarrow> state \<Rightarrow> (os_error + byteslice) \<times> state" where
  "memcall_Alloc e n s =
     (let s1 = s\<lparr>trace := trace s @ [EvAlloc n]\<rparr> in
      if n < 0 \<or> \<not> os_ok e (trace s) (EvAlloc n) then (Inl AllocFailed, s1)
      else (Inr (Some \<lparr>sp_region = next_region s, sp_off = 0, sp_len = nat n\<rparr>),
            s1\<lparr>mem := (mem s)(next_region s \<mapsto> replicate (nat n) 0),
               next_region := Suc (next_region s)\<rparr>))"

definition memcall_Protect :: "env \<Rightarrow> byteslice \<Rightarrow> prot \<Rightarrow> state \<Rightarrow> os_error option \<times> state" where
  "memcall_Protect e sl m s =
     (if os_ok e (trace s) (EvProtect sl m) then None else Some ProtectFailed,
      s\<lparr>trace := trace s @ [EvProtect sl m]\<rparr>)"

definition memcall_Lock :: "env \<Rightarrow> byteslice \<Rightarrow> state \<Rightarrow> os_error option \<times> state" where
  "memcall_Lock e sl s =
     (if os_ok e (trace s) (EvLock sl) then None else Some LockFailed,
      s\<lparr>trace := trace s @ [EvLock sl]\<rparr>)"

definition memcall_Unlock :: "env \<Rightarrow> byteslice \<Rightarrow> state \<Rightarrow> os_error option \<times> state" where
  "memcall_Unlock e sl s =
     (if os_ok e (trace s) (EvUnlock sl) then None else Some UnlockFailed,
      s\<lparr>trace := trace s @ [EvUnlock sl]\<rparr>)"

definition memcall_Free :: "env \<Rightarrow> byteslice \<Rightarrow> state \<Rightarrow> os_error option \<times> state" where
  "memcall_Free e sl s =
     (let s1 = s\<lparr>trace := trace s @ [EvFree sl]\<rparr> in
      if os_ok e (trace s) (EvFree sl)
      then (None, (case sl of None \<Rightarrow> s1 | Some sp \<Rightarrow> s1\<lparr>mem := (mem s)(sp_region sp := None)\<rparr>))
      else (Some FreeFailed, s1))"

text \<open>
  \<^verbatim>\<open>rand.Read\<close> of the Go library fills the slice with random bytes or fails. The bytes
  are the environment's; \<open>None\<close> when the slice is not mapped.
\<close>

definition rand_Read :: "env \<Rightarrow> byteslice \<Rightarrow> state \<Rightarrow> (os_error option \<times> state) option" where
  "rand_Read e sl s =
     (let s1 = s\<lparr>trace := trace s @ [EvRand sl]\<rparr> in
      if os_ok e (trace s) (EvRand sl)
      then map_option (Pair None) (store sl (map (rand_byte e (trace s)) [0..<slice_len sl]) s1)
      else Some (Some RandFailed, s1))"

text \<open>
  Modelled from the spec: \<^verbatim>\<open>Panic\<close> is not among the sources. The spec has every fatal
  condition invoke the panic handler after a best-effort wipe of every live buffer: before
  the handler runs, the core attempts to wipe the inner region of every registered buffer.
  The handler does not return.
\<close>

definition wipe_inner :: "bufptr \<Rightarrow> state \<Rightarrow> state" where
  "wipe_inner p s =
     (case p of None \<Rightarrow> s
      | Some a \<Rightarrow>
          (case heap s a of None \<Rightarrow> s
           | Some b \<Rightarrow> (case crypto_MemClr (inner b) s of None \<Rightarrow> s | Some s1 \<Rightarrow> s1)))"

definition Panic :: "panic_value \<Rightarrow> state \<Rightarrow> 'a outcome" where
  "Panic v s =
     (let s1 = fold wipe_inner (slice_elems s (buffers s)) s
      in Fatal (s1\<lparr>trace := trace s1 @ [EvPanic v]\<rparr>))"

text \<open>The idiom \<^verbatim>\<open>if err != nil { Panic(err) }\<close>.\<close>

definition check_err :: "os_error option \<times> state \<Rightarrow> unit outcome" where
  "check_err r = (case r of (None, s1) \<Rightarrow> Returned () s1 | (Some err, s1) \<Rightarrow> Panic (PanicErr err) s1)"

section \<open>The Buffer\<close>

definition zero_Buffer :: Buffer where
  "zero_Buffer = \<lparr>alive = False, mutable = False, Data = None, memory = None, preguard = None,
     inner = None, postguard = None, canaryval = None, canaryref = None\<rparr>"

text \<open>\<^verbatim>\<open>new(Buffer)\<close>: a fresh object, every field zero.\<close>

definition new_Buffer :: "state \<Rightarrow> nat outcome" where
  "new_Buffer s =
     Returned (next_buf s)
       (s\<lparr>heap := (heap s)(next_buf s \<mapsto> zero_Buffer), next_buf := Suc (next_buf s)\<rparr>)"

text \<open>An assignment to fields of the object at address \<open>a\<close>.\<close>

definition assign :: "nat \<Rightarrow> (Buffer \<Rightarrow> Buffer) \<Rightarrow> state \<Rightarrow> unit outcome" where
  "assign a f s =
     (case heap s a of None \<Rightarrow> RuntimePanic
      | Some b \<Rightarrow> Returned () (s\<lparr>heap := (heap s)(a \<mapsto> f b)\<rparr>))"

text \<open>Dereferencing a \<^verbatim>\<open>*Buffer\<close>: the address and the object, or nothing for nil.\<close>

definition deref :: "state \<Rightarrow> bufptr \<Rightarrow> (nat \<times> Buffer) option" where
  "deref s p = (case p of None \<Rightarrow> None | Some a \<Rightarrow> map_option (Pair a) (heap s a))"

text \<open>
  \<^verbatim>\<open>NewBuffer\<close> from its first statement to the assignment \<^verbatim>\<open>b.mutable = true\<close>
  (lines 48 to 99): everything but the registration and the return.
\<close>

definition NewBuffer_construct :: "env \<Rightarrow> int \<Rightarrow> state \<Rightarrow> nat outcome" where
  "NewBuffer_construct e sz s =
     (let P = pageSize e;
          innerLen = roundToPageSize e (go_add sz 32)
      in
      then_do new_Buffer (\<lambda>a.
      then_do (\<lambda>s. case memcall_Alloc e (go_add (go_mul 2 P) innerLen) s of
                     (Inl err, s1) \<Rightarrow> Panic (PanicErr err) s1
                   | (Inr m, s1) \<Rightarrow> Returned m s1) (\<lambda>m.
      then_do (assign a (\<lambda>b. b\<lparr>memory := m\<rparr>)) (\<lambda>_.
      then_do (need (index_addr m (go_sub (go_add P innerLen) sz))) (\<lambda>pd.
      then_do (assign a (\<lambda>b. b\<lparr>Data := getBytes pd sz\<rparr>)) (\<lambda>_.
      then_do (need (index_addr m 0)) (\<lambda>p0.
      then_do (assign a (\<lambda>b. b\<lparr>preguard := getBytes p0 P\<rparr>)) (\<lambda>_.
      then_do (need (index_addr m P)) (\<lambda>pin.
      then_do (assign a (\<lambda>b. b\<lparr>inner := getBytes pin innerLen\<rparr>)) (\<lambda>_.
      then_do (need (index_addr m (go_add P innerLen))) (\<lambda>ppost.
      then_do (assign a (\<lambda>b. b\<lparr>postguard := getBytes ppost P\<rparr>)) (\<lambda>_.
      then_do (need (index_addr m (go_sub P 32))) (\<lambda>pref.
      then_do (assign a (\<lambda>b. b\<lparr>canaryref := getBytes pref 32\<rparr>)) (\<lambda>_.
      then_do (need (index_addr m (go_sub (go_sub (go_add P innerLen) sz) 32))) (\<lambda>pval.
      then_do (assign a (\<lambda>b. b\<lparr>canaryval := getBytes pval 32\<rparr>)) (\<lambda>_.
      then_do (\<lambda>s. check_err (memcall_Lock e (getBytes pin innerLen) s)) (\<lambda>_.
      then_do (\<lambda>s. case rand_Read e (getBytes pref 32) s of
                     None \<Rightarrow> RuntimePanic | Some r \<Rightarrow> check_err r) (\<lambda>_.
      then_do (\<lambda>s. need_state (crypto_Copy (getBytes pval 32) (getBytes pref 32) s)) (\<lambda>_.
      then_do (\<lambda>s. check_err (memcall_Protect e (getBytes p0 P) NoAccess s)) (\<lambda>_.
      then_do (\<lambda>s. check_err (memcall_Protect e (getBytes ppost P) NoAccess s)) (\<lambda>_.
      then_do (assign a (\<lambda>b. b\<lparr>alive := True\<rparr>)) (\<lambda>_.
      then_do (assign a (\<lambda>b. b\<lparr>mutable := True\<rparr>)) (\<lambda>_.
      Returned a)))))))))))))))))))))) s)"

text \<open>
  \<^verbatim>\<open>NewBuffer\<close>: the length check, the construction, then \<^verbatim>\<open>buffers.Add(b)\<close> and the
  return of \<^verbatim>\<open>b, nil\<close>.
\<close>

definition NewBuffer :: "env \<Rightarrow> int \<Rightarrow> state \<Rightarrow> (bufptr \<times> error option) outcome" where
  "NewBuffer e sz s =
     (if sz < 1 then Returned (None, Some ErrInvalidLength) s
      else then_do (NewBuffer_construct e sz)
             (\<lambda>a s1. Returned (Some a, None) (BufferList_Add e (Some a) s1)) s)"

definition GetBufferState :: "bufptr \<Rightarrow> state \<Rightarrow> BufferState outcome" where
  "GetBufferState p s =
     (case deref s p of None \<Rightarrow> RuntimePanic
      | Some (a, b) \<Rightarrow> Returned \<lparr>IsMutable = mutable b, IsDestroyed = \<not> alive b\<rparr> s)"

definition Freeze :: "env \<Rightarrow> bufptr \<Rightarrow> state \<Rightarrow> error option outcome" where
  "Freeze e p s =
     (case deref s p of None \<Rightarrow> RuntimePanic
      | Some (a, b) \<Rightarrow>
          if \<not> alive b then Returned (Some ErrDestroyed) s
          else if mutable b then
            then_do (\<lambda>s. check_err (memcall_Protect e (inner b) ReadOnly s))
              (\<lambda>_. then_do (assign a (\<lambda>b. b\<lparr>mutable := False\<rparr>)) (\<lambda>_. Returned None)) s
          else Returned None s)"

definition Melt :: "env \<Rightarrow> bufptr \<Rightarrow> state \<Rightarrow> error option outcome" where
  "Melt e p s =
     (case deref s p of None \<Rightarrow> RuntimePanic
      | Some (a, b) \<Rightarrow>
          if \<not> alive b then Returned (Some ErrDestroyed) s
          else if \<not> mutable b then
            then_do (\<lambda>s. check_err (memcall_Protect e (inner b) ReadWrite s))
              (\<lambda>_. then_do (assign a (\<lambda>b. b\<lparr>mutable := True\<rparr>)) (\<lambda>_. Returned None)) s
          else Returned None s)"

definition canary_msg :: string where
  "canary_msg = ''<memguard::core::buffer> canary verification failed; buffer overflow detected''"

definition DestroyBuffer :: "env \<Rightarrow> bufptr \<Rightarrow> state \<Rightarrow> unit outcome" where
  "DestroyBuffer e p s =
     (case deref s p of None \<Rightarrow> RuntimePanic
      | Some (a, b) \<Rightarrow>
          if \<not> alive b then Returned () s
          else
            then_do (\<lambda>s. check_err (memcall_Protect e (memory b) ReadWrite s)) (\<lambda>_.
            then_do (\<lambda>s. need (crypto_Equal s (canaryval b) (canaryref b)) s) (\<lambda>eq.
            if \<not> eq then Panic (PanicMsg canary_msg)
            else
            then_do (\<lambda>s. Returned () (BufferList_Remove p s)) (\<lambda>_.
            then_do (\<lambda>s. need_state (crypto_MemClr (memory b) s)) (\<lambda>_.
            then_do (\<lambda>s. check_err (memcall_Unlock e (inner b) s)) (\<lambda>_.
            then_do (\<lambda>s. check_err (memcall_Free e (memory b) s)) (\<lambda>_.
            then_do (assign a (\<lambda>b. b\<lparr>alive := False, mutable := False, Data := None,
                       memory := None, preguard := None, postguard := None,
                       canaryref := None, canaryval := None\<rparr>)) (\<lambda>_.
            Returned ()))))))) s)"

section \<open>Runs of the program\<close>

text \<open>
  A client calls the four operations in any order, reads the state of a buffer, and writes
  bytes into mapped memory (through \<^verbatim>\<open>Data\<close>, or past its bounds). A call that does not
  return ends the run.
\<close>

datatype op =
  OpNewBuffer int
  | OpFreeze bufptr
  | OpMelt bufptr
  | OpDestroyBuffer bufptr
  | OpGetBufferState bufptr
  | OpPoke nat nat byte

definition poke :: "nat \<Rightarrow> nat \<Rightarrow> byte \<Rightarrow> state \<Rightarrow> state option" where
  "poke r i v s =
     (case mem s r of None \<Rightarrow> None
      | Some bs \<Rightarrow> if i < length bs then Some (s\<lparr>mem := (mem s)(r \<mapsto> bs[i := v])\<rparr>) else None)"

definition completed :: "'a outcome \<Rightarrow> state option" where
  "completed r = (case r of Returned x s1 \<Rightarrow> Some s1 | Fatal s1 \<Rightarrow> None | RuntimePanic \<Rightarrow> None)"

fun step :: "env \<Rightarrow> op \<Rightarrow> state \<Rightarrow> state option" where
  "step e (OpNewBuffer n) s = completed (NewBuffer e n s)"
| "step e (OpFreeze p) s = completed (Freeze e p s)"
| "step e (OpMelt p) s = completed (Melt e p s)"
| "step e (OpDestroyBuffer p) s = completed (DestroyBuffer e p s)"
| "step e (OpGetBufferState p) s = completed (GetBufferState p s)"
| "step e (OpPoke r i v) s = poke r i v s"

fun run :: "env \<Rightarrow> op list \<Rightarrow> state \<Rightarrow> state option" where
  "run e [] s = Some s"
| "run e (x # xs) s = (case step e x s of None \<Rightarrow> None | Some s1 \<Rightarrow> run e xs s1)"

definition is_alive :: "state \<Rightarrow> nat \<Rightarrow> bool" where
  "is_alive s a = (case heap s a of None \<Rightarrow> False | Some b \<Rightarrow> alive b)"

text \<open>Calls on the registry alone.\<close>

datatype reg_op = RegAdd bufptr | RegRemove bufptr | RegEmpty

fun reg_step :: "env \<Rightarrow> reg_op \<Rightarrow> state \<Rightarrow> state" where
  "reg_step e (RegAdd p) s = BufferList_Add e p s"
| "reg_step e (RegRemove p) s = BufferList_Remove p s"
| "reg_step e RegEmpty s = snd (BufferList_Empty s)"

fun reg_run :: "env \<Rightarrow> reg_op list \<Rightarrow> state \<Rightarrow> state" where
  "reg_run e [] s = s"
| "reg_run e (x # xs) s = reg_run e xs (reg_step e x s)"

section \<open>Predicates and concrete inputs used by the theorems\<close>

text \<open>The contents of the registry, in the order of its list.\<close>

abbreviation registry :: "state \<Rightarrow> bufptr list" where
  "registry s \<equiv> slice_elems s (buffers s)"

text \<open>
  The list of the registry is a proper slice: its backing array exists, is as long as the
  capacity says, and the length does not exceed the capacity.
\<close>

definition reg_wf :: "state \<Rightarrow> bool" where
  "reg_wf s =
     (case buffers s of None \<Rightarrow> True
      | Some h \<Rightarrow> ps_arr h < next_array s \<and>
          (case parrays s (ps_arr h) of None \<Rightarrow> False
           | Some xs \<Rightarrow> length xs = ps_cap h \<and> ps_len h \<le> ps_cap h))"

text \<open>
  An environment with pages of 4096 bytes in which the operating system grants every call.
\<close>

definition granting_env :: env where
  "granting_env = \<lparr>pageSize = 4096, os_ok = (\<lambda>h ev. True), rand_byte = (\<lambda>h i. of_nat i + 1),
     growcap = (\<lambda>c n. 2 * c)\<rparr>"

text \<open>The array \<open>a\<close> is allocated and is not the backing array of the registry's list.\<close>

definition apart :: "nat \<Rightarrow> state \<Rightarrow> bool" where
  "apart a s \<longleftrightarrow> a < next_array s \<and> (case buffers s of None \<Rightarrow> True | Some h \<Rightarrow> ps_arr h \<noteq> a)"

text \<open>The state after two buffers were added to the empty registry.\<close>

definition two_registered :: state where
  "two_registered = fold (BufferList_Add granting_env) [Some 0, Some 1] init_state"

text \<open>The page sizes the theorems cover: positive and at most 4 GiB.\<close>

definition page_ok :: "env \<Rightarrow> bool" where
  "page_ok e \<longleftrightarrow> 0 < pageSize e \<and> pageSize e \<le> 4294967296"

text \<open>The least multiple of \<open>P\<close> that is not below \<open>n\<close>, without wrap-around.\<close>

definition roundUp :: "int \<Rightarrow> int \<Rightarrow> int" where
  "roundUp n P = (n + P - 1) div P * P"

text \<open>
  The fields \<^verbatim>\<open>NewBuffer\<close> assigns before it sets the flags, for the region \<open>r\<close>, the page
  size, the inner length, the total length and the requested size.
\<close>

definition built :: "nat \<Rightarrow> int \<Rightarrow> int \<Rightarrow> int \<Rightarrow> int \<Rightarrow> Buffer" where
  "built r P Lw T sz =
     \<lparr>alive = False, mutable = False,
      Data = Some \<lparr>sp_region = r, sp_off = nat (go_sub (go_add P Lw) sz), sp_len = nat sz\<rparr>,
      memory = Some \<lparr>sp_region = r, sp_off = 0, sp_len = nat T\<rparr>,
      preguard = Some \<lparr>sp_region = r, sp_off = 0, sp_len = nat P\<rparr>,
      inner = Some \<lparr>sp_region = r, sp_off = nat P, sp_len = nat Lw\<rparr>,
      postguard = Some \<lparr>sp_region = r, sp_off = nat (go_add P Lw), sp_len = nat P\<rparr>,
      canaryval = Some \<lparr>sp_region = r, sp_off = nat (go_sub (go_sub (go_add P Lw) sz) 32), sp_len = 32\<rparr>,
      canaryref = Some \<lparr>sp_region = r, sp_off = nat (go_sub P 32), sp_len = 32\<rparr>\<rparr>"

text \<open>
  The layout the spec gives a buffer of \<open>sz\<close> bytes in region \<open>r\<close>, for the page size \<open>P\<close> and
  the inner length \<open>L\<close>: guard pages of \<open>P\<close> bytes around the inner region, the data in the
  last \<open>sz\<close> bytes of the inner region, the canary value in the 32 bytes before the data and
  the canary reference in the last 32 bytes of the first guard page.
\<close>

definition spec_layout :: "nat \<Rightarrow> int \<Rightarrow> int \<Rightarrow> int \<Rightarrow> Buffer" where
  "spec_layout r P L sz =
     \<lparr>alive = True, mutable = True,
      Data = Some \<lparr>sp_region = r, sp_off = nat (P + L - sz), sp_len = nat sz\<rparr>,
      memory = Some \<lparr>sp_region = r, sp_off = 0, sp_len = nat (2 * P + L)\<rparr>,
      preguard = Some \<lparr>sp_region = r, sp_off = 0, sp_len = nat P\<rparr>,
      inner = Some \<lparr>sp_region = r, sp_off = nat P, sp_len = nat L\<rparr>,
      postguard = Some \<lparr>sp_region = r, sp_off = nat (P + L), sp_len = nat P\<rparr>,
      canaryval = Some \<lparr>sp_region = r, sp_off = nat (P + L - sz - 32), sp_len = 32\<rparr>,
      canaryref = Some \<lparr>sp_region = r, sp_off = nat (P - 32), sp_len = 32\<rparr>\<rparr>"

text \<open>The canary bytes \<^verbatim>\<open>NewBuffer\<close> draws in state \<open>s\<close>.\<close>

definition fresh_canary :: "env \<Rightarrow> int \<Rightarrow> state \<Rightarrow> byte list" where
  "fresh_canary e sz s =
     map (rand_byte e (trace s @
        [EvAlloc (2 * pageSize e + roundUp (sz + 32) (pageSize e)),
         EvLock (Some \<lparr>sp_region = next_region s, sp_off = nat (pageSize e),
                        sp_len = nat (roundUp (sz + 32) (pageSize e))\<rparr>)])) [0..<32]"

text \<open>The result a call returns, if it returns.\<close>

definition returned :: "'a outcome \<Rightarrow> 'a option" where
  "returned r = (case r of Returned x s1 \<Rightarrow> Some x | Fatal s1 \<Rightarrow> None | RuntimePanic \<Rightarrow> None)"

text \<open>
  An environment with pages of 4096 bytes in which the operating system makes guard pages
  inaccessible and refuses every other change of protection.
\<close>

definition guard_only_env :: env where
  "guard_only_env = \<lparr>pageSize = 4096,
     os_ok = (\<lambda>h ev. case ev of EvProtect sl m \<Rightarrow> m = NoAccess | _ \<Rightarrow> True),
     rand_byte = (\<lambda>h i. of_nat i + 1), growcap = (\<lambda>c n. 2 * c)\<rparr>"

text \<open>The value the fatal handler was invoked with, when a call ended there.\<close>

definition fatal_value :: "'a outcome \<Rightarrow> panic_value option" where
  "fatal_value r =
     (case r of Returned x s1 \<Rightarrow> None
      | Fatal s1 \<Rightarrow> (case last (trace s1) of EvPanic v \<Rightarrow> Some v | _ \<Rightarrow> None)
      | RuntimePanic \<Rightarrow> None)"

text \<open>The state after one buffer of one byte was created in the initial state.\<close>

definition one_buffer :: "env \<Rightarrow> state" where
  "one_buffer e = the (completed (NewBuffer e 1 init_state))"

text \<open>Every byte of the span is mapped and zero.\<close>

definition span_zero :: "state \<Rightarrow> byteslice \<Rightarrow> bool" where
  "span_zero s sl \<longleftrightarrow> load s sl = Some (replicate (slice_len sl) 0)"

text \<open>
  From \<open>s\<close> to \<open>s1\<close> the mapped regions kept their lengths and every byte kept its value or
  became zero.
\<close>

definition zeroed_from :: "state \<Rightarrow> state \<Rightarrow> bool" where
  "zeroed_from s s1 \<longleftrightarrow>
     (\<forall>r. case mem s r of None \<Rightarrow> mem s1 r = None
          | Some bs \<Rightarrow> (case mem s1 r of None \<Rightarrow> False
              | Some bs1 \<Rightarrow> length bs1 = length bs \<and> (\<forall>i<length bs. bs1 ! i = 0 \<or> bs1 ! i = bs ! i)))"

text \<open>The event is the wipe of the inner region of a registered buffer.\<close>

definition inner_wipe :: "state \<Rightarrow> event \<Rightarrow> bool" where
  "inner_wipe s ev \<longleftrightarrow>
     (\<exists>a b. Some a \<in> set (registry s) \<and> heap s a = Some b \<and> ev = EvWipe (inner b))"

text \<open>The values the fatal handler was invoked with, in the order of the invocations.\<close>

fun panics :: "event list \<Rightarrow> panic_value list" where
  "panics [] = []"
| "panics (EvPanic v # es) = v # panics es"
| "panics (ev # es) = panics es"

text \<open>
  The state after a client overwrote the first byte of the canary value of the one buffer
  of \<open>one_buffer e\<close> (pages of 4096 bytes: the canary value starts at offset 8159).
\<close>

definition tampered :: "env \<Rightarrow> state" where
  "tampered e = the (poke 0 8159 0 (one_buffer e))"

text \<open>The canary bytes of the concrete environments: 1, 2, ..., 32.\<close>

definition count_canary :: "byte list" where
  "count_canary = map (\<lambda>i. of_nat i + 1) [0..<32]"

text \<open>
  The invariant of the registry: its list is a proper slice without duplicates, every
  element is the address of an allocated buffer that is alive, and every alive buffer is
  an element.
\<close>

definition registry_inv :: "state \<Rightarrow> bool" where
  "registry_inv s \<longleftrightarrow>
     reg_wf s \<and> distinct (registry s) \<and>
     (\<forall>p\<in>set (registry s). \<exists>a. p = Some a \<and> a < next_buf s \<and> is_alive s a) \<and>
     (\<forall>a. is_alive s a \<longrightarrow> Some a \<in> set (registry s))"

section \<open>The registry\<close>

lemma registry_Add:
  assumes "reg_wf s"
  shows "registry (BufferList_Add e p s) = registry s @ [p]"
proof (cases "buffers s")
  case None
  then show ?thesis
    by (simp add: BufferList_Add_def go_append_def new_array_def slice_elems_def Let_def)
next
  case (Some h)
  with assms obtain xs where xs: "parrays s (ps_arr h) = Some xs" "length xs = ps_cap h" "ps_len h \<le> ps_cap h"
    by (auto simp: reg_wf_def split: option.splits)
  show ?thesis
  proof (cases "ps_len h < ps_cap h")
    case True
    with Some xs show ?thesis
      by (simp add: BufferList_Add_def go_append_def slice_elems_def take_Suc_conv_app_nth)
  next
    case False
    with Some xs show ?thesis
      by (simp add: BufferList_Add_def go_append_def new_array_def slice_elems_def Let_def)
  qed
qed

lemma reg_wf_Add:
  assumes "reg_wf s"
  shows "reg_wf (BufferList_Add e p s)"
proof (cases "buffers s")
  case None
  then show ?thesis
    by (simp add: BufferList_Add_def go_append_def new_array_def reg_wf_def Let_def)
next
  case (Some h)
  with assms obtain xs where xs: "parrays s (ps_arr h) = Some xs" "length xs = ps_cap h" "ps_len h \<le> ps_cap h" "ps_arr h < next_array s"
    by (auto simp: reg_wf_def split: option.splits)
  show ?thesis
  proof (cases "ps_len h < ps_cap h")
    case True
    with Some xs show ?thesis
      by (simp add: BufferList_Add_def go_append_def reg_wf_def)
  next
    case False
    with Some xs show ?thesis
      by (simp add: BufferList_Add_def go_append_def new_array_def reg_wf_def slice_elems_def Let_def)
  qed
qed

lemma first_index_bounds:
  "first_index xs b k = Some i \<Longrightarrow> k \<le> i \<and> i - k < length xs \<and> xs ! (i - k) = b \<and> b \<notin> set (take (i - k) xs)"
proof (induction xs arbitrary: k)
  case Nil
  then show ?case by simp
next
  case (Cons v vs)
  show ?case
  proof (cases "v = b")
    case True
    with Cons.prems show ?thesis by simp
  next
    case False
    with Cons.prems have fi: "first_index vs b (Suc k) = Some i" by simp
    from Cons.IH[OF fi] have ih: "Suc k \<le> i" "i - Suc k < length vs" "vs ! (i - Suc k) = b"
      "b \<notin> set (take (i - Suc k) vs)" by auto
    then have "i - k = Suc (i - Suc k)" by arith
    with ih False show ?thesis by simp
  qed
qed

lemma first_index_None: "first_index xs b k = None \<longleftrightarrow> b \<notin> set xs"
  by (induction xs arbitrary: k) auto

lemma first_index_remove1:
  "first_index xs b k = Some i \<Longrightarrow> take (i - k) xs @ drop (Suc (i - k)) xs = remove1 b xs"
proof (induction xs arbitrary: k)
  case Nil
  then show ?case by simp
next
  case (Cons v vs)
  show ?case
  proof (cases "v = b")
    case True
    with Cons.prems show ?thesis by simp
  next
    case False
    with Cons.prems have fi: "first_index vs b (Suc k) = Some i" by simp
    from first_index_bounds[OF fi] have "i - k = Suc (i - Suc k)" by arith
    with Cons.IH[OF fi] False show ?thesis by simp
  qed
qed

lemma take_shift_down:
  assumes "i < n" "n \<le> length xs"
  shows "take (n - 1) (shift_down i n xs) = take i (take n xs) @ drop (Suc i) (take n xs)"
proof -
  let ?front = "take i xs @ take (n - Suc i) (drop (Suc i) xs)"
  have len: "length ?front = n - 1" using assms by simp
  have "shift_down i n xs = ?front @ drop (n - 1) xs" by (simp add: shift_down_def)
  moreover have "take (length ?front) (?front @ drop (n - 1) xs) = ?front"
    by (metis append_eq_conv_conj)
  ultimately have "take (n - 1) (shift_down i n xs) = ?front"
    by (simp only: len)
  moreover have "take i (take n xs) = take i xs" using assms by (simp add: min_def)
  moreover have "drop (Suc i) (take n xs) = take (n - Suc i) (drop (Suc i) xs)"
    by (simp add: drop_take)
  ultimately show ?thesis by simp
qed

lemma length_shift_down:
  assumes "i < n" "n \<le> length xs"
  shows "length (shift_down i n xs) = length xs"
  using assms by (simp add: shift_down_def)

lemma registry_Remove:
  assumes "reg_wf s"
  shows "registry (BufferList_Remove p s) = remove1 p (registry s)"
proof (cases "first_index (registry s) p 0")
  case None
  then have "p \<notin> set (registry s)" by (simp add: first_index_None)
  with None show ?thesis by (simp add: BufferList_Remove_def remove1_idem)
next
  case (Some i)
  from first_index_bounds[OF Some] have i: "i < length (registry s)" by simp
  then obtain h where h: "buffers s = Some h" by (cases "buffers s") (auto simp: slice_elems_def)
  with assms obtain xs where xs: "parrays s (ps_arr h) = Some xs" "length xs = ps_cap h" "ps_len h \<le> ps_cap h"
    by (auto simp: reg_wf_def split: option.splits)
  from h xs have reg: "registry s = take (ps_len h) xs" by (simp add: slice_elems_def)
  with i xs have il: "i < ps_len h" by simp
  have "registry (BufferList_Remove p s) = take (ps_len h - 1) (shift_down i (ps_len h) xs)"
    using Some h xs by (simp add: BufferList_Remove_def slice_elems_def)
  also have "\<dots> = take i (registry s) @ drop (Suc i) (registry s)"
    using take_shift_down[OF il] xs reg by simp
  also have "\<dots> = remove1 p (registry s)"
    using first_index_remove1[OF Some] by simp
  finally show ?thesis .
qed

lemma reg_wf_Remove:
  assumes "reg_wf s"
  shows "reg_wf (BufferList_Remove p s)"
proof (cases "first_index (registry s) p 0")
  case None
  with assms show ?thesis by (simp add: BufferList_Remove_def)
next
  case (Some i)
  from first_index_bounds[OF Some] have i: "i < length (registry s)" by simp
  then obtain h where h: "buffers s = Some h" by (cases "buffers s") (auto simp: slice_elems_def)
  with assms obtain xs where xs: "parrays s (ps_arr h) = Some xs" "length xs = ps_cap h" "ps_len h \<le> ps_cap h" "ps_arr h < next_array s"
    by (auto simp: reg_wf_def split: option.splits)
  from h xs have reg: "registry s = take (ps_len h) xs" by (simp add: slice_elems_def)
  with i xs have il: "i < ps_len h" by simp
  from il xs have "length (shift_down i (ps_len h) xs) = ps_cap h"
    using length_shift_down[of i "ps_len h" xs] by simp
  with Some h xs show ?thesis
    by (simp add: BufferList_Remove_def reg_wf_def)
qed

lemma Empty_snapshot:
  assumes "reg_wf s" "BufferList_Empty s = (snap, s1)"
  shows "slice_elems s1 snap = registry s" "buffers s1 = None" "registry s1 = []" "reg_wf s1"
proof -
  have len: "length (registry s) = (case buffers s of None \<Rightarrow> 0 | Some h \<Rightarrow> ps_len h)"
    using assms(1) by (auto simp: reg_wf_def slice_elems_def split: option.splits)
  from assms(2) len show "slice_elems s1 snap = registry s"
    by (auto simp: BufferList_Empty_def new_array_def Let_def slice_elems_def go_copy_def split: option.splits)
  from assms(2) show "buffers s1 = None" 
    by (auto simp: BufferList_Empty_def new_array_def Let_def)
  then show "registry s1 = []" "reg_wf s1" by (simp_all add: slice_elems_def reg_wf_def)
qed

lemma exists_loop_set: "exists_loop xs b \<longleftrightarrow> b \<in> set xs"
  by (induction xs) auto

lemma fold_Add:
  "reg_wf s \<Longrightarrow> reg_wf (fold (BufferList_Add e) ps s) \<and> registry (fold (BufferList_Add e) ps s) = registry s @ ps"
proof (induction ps arbitrary: s)
  case Nil
  then show ?case by simp
next
  case (Cons p ps)
  from Cons.prems have "reg_wf (BufferList_Add e p s)" by (rule reg_wf_Add)
  from Cons.IH[OF this] show ?case using registry_Add[OF Cons.prems] by simp
qed

lemma apart_step:
  assumes "apart a s"
  shows "apart a (reg_step e x s) \<and> parrays (reg_step e x s) a = parrays s a"
proof (cases x)
  case (RegAdd p)
  with assms show ?thesis
    by (auto simp: apart_def BufferList_Add_def go_append_def new_array_def Let_def
        split: option.splits)
next
  case (RegRemove p)
  with assms show ?thesis
    by (auto simp: apart_def BufferList_Remove_def split: option.splits)
next
  case RegEmpty
  with assms show ?thesis
    by (auto simp: apart_def BufferList_Empty_def new_array_def Let_def split: option.splits)
qed

lemma apart_run:
  "apart a s \<Longrightarrow> parrays (reg_run e xs s) a = parrays s a"
proof (induction xs arbitrary: s)
  case Nil
  then show ?case by simp
next
  case (Cons x xs)
  from apart_step[OF Cons.prems, of e x]
  have "apart a (reg_step e x s)" and eq: "parrays (reg_step e x s) a = parrays s a" by auto
  from Cons.IH[OF this(1)] eq show ?case by simp
qed

lemma Empty_apart:
  assumes "reg_wf s" "BufferList_Empty s = (snap, s1)"
  shows "\<exists>h. snap = Some h \<and> ps_arr h = next_array s \<and> apart (ps_arr h) s1 \<and>
           (\<forall>h0. buffers s = Some h0 \<longrightarrow> ps_arr h0 \<noteq> ps_arr h)"
  using assms
  by (auto simp: BufferList_Empty_def new_array_def Let_def apart_def reg_wf_def split: option.splits)

section \<open>Go integers and the layout arithmetic\<close>

lemma wrap64_id: "is_int64 x \<Longrightarrow> wrap64 x = x"
  by (simp add: wrap64_def is_int64_def)

lemma wrap64_hi:
  assumes "9223372036854775808 \<le> x" "x < 27670116110564327424"
  shows "wrap64 x = x - 18446744073709551616"
proof -
  have "(x + 9223372036854775808) mod 18446744073709551616
        = (x + 9223372036854775808 - 18446744073709551616) mod 18446744073709551616"
    by (metis minus_mod_self2)
  also have "\<dots> = x + 9223372036854775808 - 18446744073709551616"
    using assms by simp
  finally show ?thesis by (simp add: wrap64_def)
qed

lemma roundUp_bounds:
  assumes "0 < P"
  shows "n \<le> roundUp n P" "roundUp n P < n + P" "P dvd roundUp n P"
proof -
  have eq: "n + P - 1 = roundUp n P + (n + P - 1) mod P"
    by (simp add: roundUp_def)
  have "0 \<le> (n + P - 1) mod P" "(n + P - 1) mod P < P" using assms by simp_all
  with eq show "n \<le> roundUp n P" "roundUp n P < n + P" by linarith+
  show "P dvd roundUp n P" by (simp add: roundUp_def)
qed

lemma roundUp_least:
  assumes "0 < P" "P dvd m" "n \<le> m"
  shows "roundUp n P \<le> m"
proof -
  from assms(2) obtain k where k: "m = P * k" by (auto simp: dvd_def)
  from roundUp_bounds[OF assms(1), of n] obtain j where j: "roundUp n P = P * j" "P * j < n + P"
    by (auto simp: dvd_def)
  from j k assms have "P * j < P * k + P" by linarith
  then have "P * j < P * (k + 1)" by (simp add: algebra_simps)
  with assms(1) have "j < k + 1" by (simp add: mult_less_cancel_left_pos)
  then have "j \<le> k" by simp
  with assms(1) have "P * j \<le> P * k" by (simp add: mult_left_mono)
  with j k show ?thesis by simp
qed

lemma roundToPageSize_eq: "roundToPageSize e n = wrap64 (roundUp n (pageSize e))"
  by (simp add: roundToPageSize_def roundUp_def)

text \<open>A granted allocation shows that no operation of the size computation wrapped.\<close>

lemma layout_no_wrap:
  assumes sz: "1 \<le> sz" "is_int64 sz"
    and pg: "page_ok e"
    and tot: "0 \<le> go_add (go_mul 2 (pageSize e)) (roundToPageSize e (go_add sz 32))"
  shows "roundToPageSize e (go_add sz 32) = roundUp (sz + 32) (pageSize e)"
    and "go_add (go_mul 2 (pageSize e)) (roundToPageSize e (go_add sz 32))
         = 2 * pageSize e + roundUp (sz + 32) (pageSize e)"
    and "is_int64 (2 * pageSize e + roundUp (sz + 32) (pageSize e))"
proof -
  let ?P = "pageSize e"
  from pg have P: "0 < ?P" "?P \<le> 4294967296" by (simp_all add: page_ok_def)
  from P have twoP: "go_mul 2 ?P = 2 * ?P" by (simp add: go_mul_def wrap64_id is_int64_def)
  have nowrap1: "sz + 32 < 9223372036854775808"
  proof (rule ccontr)
    assume "\<not> ?thesis"
    with sz have w: "go_add sz 32 = sz + 32 - 18446744073709551616"
      by (simp add: go_add_def wrap64_hi is_int64_def)
    let ?w = "sz + 32 - 18446744073709551616"
    from roundUp_bounds[OF P(1), of ?w] sz P have "is_int64 (roundUp ?w ?P)"
      "roundUp ?w ?P < - 9223372036854775808 + 32 + ?P"
      using \<open>\<not> sz + 32 < 9223372036854775808\<close> by (simp_all add: is_int64_def)
    then have r: "roundToPageSize e (go_add sz 32) = roundUp ?w ?P"
      "roundUp ?w ?P < - 9223372036854775808 + 32 + ?P" "- 9223372036854775808 \<le> roundUp ?w ?P"
      by (simp_all add: roundToPageSize_eq w wrap64_id is_int64_def)
    with P have "is_int64 (2 * ?P + roundUp ?w ?P)" "2 * ?P + roundUp ?w ?P < 0"
      by (simp_all add: is_int64_def)
    with tot r twoP show False by (simp add: go_add_def wrap64_id)
  qed
  with sz have a1: "go_add sz 32 = sz + 32" by (simp add: go_add_def wrap64_id is_int64_def)
  let ?r = "roundUp (sz + 32) ?P"
  from roundUp_bounds[OF P(1), of "sz + 32"] have rb: "sz + 32 \<le> ?r" "?r < sz + 32 + ?P" by simp_all
  have nowrap2: "?r < 9223372036854775808"
  proof (rule ccontr)
    assume n: "\<not> ?thesis"
    with rb nowrap1 P have "wrap64 ?r = ?r - 18446744073709551616"
      by (intro wrap64_hi) simp_all
    then have r: "roundToPageSize e (go_add sz 32) = ?r - 18446744073709551616"
      by (simp add: roundToPageSize_eq a1)
    from n rb nowrap1 P have "is_int64 (2 * ?P + (?r - 18446744073709551616))"
      "2 * ?P + (?r - 18446744073709551616) < 0" by (simp_all add: is_int64_def)
    with tot r twoP show False by (simp add: go_add_def wrap64_id)
  qed
  with rb sz have r: "roundToPageSize e (go_add sz 32) = ?r"
    by (simp add: roundToPageSize_eq a1 wrap64_id is_int64_def)
  show "roundToPageSize e (go_add sz 32) = roundUp (sz + 32) (pageSize e)" by (rule r)
  have nowrap3: "2 * ?P + ?r < 9223372036854775808"
  proof (rule ccontr)
    assume n: "\<not> ?thesis"
    with nowrap2 P have "wrap64 (2 * ?P + ?r) = 2 * ?P + ?r - 18446744073709551616"
      by (intro wrap64_hi) simp_all
    moreover from nowrap2 P have "2 * ?P + ?r - 18446744073709551616 < 0" by simp
    ultimately show False using tot r twoP by (simp add: go_add_def)
  qed
  with rb sz P show i: "is_int64 (2 * ?P + ?r)" by (simp add: is_int64_def)
  have "go_add (go_mul 2 ?P) (roundToPageSize e (go_add sz 32)) = go_add (2 * ?P) ?r"
    by (simp only: r twoP)
  also have "\<dots> = 2 * ?P + ?r" using i by (simp add: go_add_def wrap64_id)
  finally show "go_add (go_mul 2 ?P) (roundToPageSize e (go_add sz 32)) = 2 * ?P + ?r" .
qed

section \<open>Calls that return\<close>

lemma then_do_Returned:
  "then_do m f s = Returned y s2 \<longleftrightarrow> (\<exists>x s1. m s = Returned x s1 \<and> f x s1 = Returned y s2)"
  by (cases "m s") (simp_all add: then_do_def)

lemma need_Returned: "need x s = Returned v s1 \<longleftrightarrow> x = Some v \<and> s1 = s"
  by (cases x) (auto simp: need_def)

lemma need_state_Returned: "need_state x = Returned u s1 \<longleftrightarrow> x = Some s1"
  by (cases x) (auto simp: need_state_def)

lemma Panic_not_Returned: "Panic v s \<noteq> Returned y s2"
  by (simp add: Panic_def Let_def)

lemma Panic_not_RuntimePanic: "Panic v s \<noteq> RuntimePanic"
  by (simp add: Panic_def Let_def)

lemma check_err_Returned: "check_err r = Returned u s1 \<longleftrightarrow> r = (None, s1)"
  by (cases r; cases "fst r") (auto simp: check_err_def Panic_not_Returned)

lemma assign_Returned:
  "assign a f s = Returned u s1 \<longleftrightarrow> (\<exists>b. heap s a = Some b \<and> s1 = s\<lparr>heap := (heap s)(a \<mapsto> f b)\<rparr>)"
  by (cases "heap s a") (auto simp: assign_def)

lemma new_Buffer_Returned:
  "new_Buffer s = Returned a s1 \<longleftrightarrow>
     a = next_buf s \<and> s1 = s\<lparr>heap := (heap s)(next_buf s \<mapsto> zero_Buffer), next_buf := Suc (next_buf s)\<rparr>"
  by (auto simp: new_Buffer_def)

lemma Alloc_Returned:
  "(case memcall_Alloc e n s of (Inl err, s1) \<Rightarrow> Panic (PanicErr err) s1 | (Inr m, s1) \<Rightarrow> Returned m s1)
     = Returned m s2 \<longleftrightarrow>
   0 \<le> n \<and> os_ok e (trace s) (EvAlloc n) \<and>
   m = Some \<lparr>sp_region = next_region s, sp_off = 0, sp_len = nat n\<rparr> \<and>
   s2 = s\<lparr>trace := trace s @ [EvAlloc n], mem := (mem s)(next_region s \<mapsto> replicate (nat n) 0),
          next_region := Suc (next_region s)\<rparr>"
  by (auto simp: memcall_Alloc_def Let_def Panic_not_Returned)

lemma Lock_ok: "memcall_Lock e sl s = (None, s1) \<longleftrightarrow>
   os_ok e (trace s) (EvLock sl) \<and> s1 = s\<lparr>trace := trace s @ [EvLock sl]\<rparr>"
  by (auto simp: memcall_Lock_def)

lemma Protect_ok: "memcall_Protect e sl m s = (None, s1) \<longleftrightarrow>
   os_ok e (trace s) (EvProtect sl m) \<and> s1 = s\<lparr>trace := trace s @ [EvProtect sl m]\<rparr>"
  by (auto simp: memcall_Protect_def)

lemma Unlock_ok: "memcall_Unlock e sl s = (None, s1) \<longleftrightarrow>
   os_ok e (trace s) (EvUnlock sl) \<and> s1 = s\<lparr>trace := trace s @ [EvUnlock sl]\<rparr>"
  by (auto simp: memcall_Unlock_def)

lemma rand_Returned:
  "(case rand_Read e sl s of None \<Rightarrow> RuntimePanic | Some r \<Rightarrow> check_err r) = Returned u s2 \<longleftrightarrow>
   os_ok e (trace s) (EvRand sl) \<and>
   store sl (map (rand_byte e (trace s)) [0..<slice_len sl]) (s\<lparr>trace := trace s @ [EvRand sl]\<rparr>) = Some s2"
  by (auto simp: rand_Read_def Let_def check_err_Returned check_err_def Panic_not_Returned split: option.splits)

lemma index_addr_Some:
  "index_addr (Some sp) i = Some p \<longleftrightarrow> 0 \<le> i \<and> i < int (sp_len sp) \<and> p = (sp_region sp, sp_off sp + nat i)"
  by (auto simp: index_addr_def)

lemma store_Some:
  "store (Some sp) ys s = Some s1 \<longleftrightarrow>
     (\<exists>bs. mem s (sp_region sp) = Some bs \<and> sp_off sp + sp_len sp \<le> length bs \<and> length ys \<le> sp_len sp \<and>
        s1 = s\<lparr>mem := (mem s)(sp_region sp \<mapsto> take (sp_off sp) bs @ ys @ drop (sp_off sp + length ys) bs)\<rparr>)"
  by (auto simp: store_def split: option.splits)

lemma load_Some:
  "load s (Some sp) = Some ys \<longleftrightarrow>
     (\<exists>bs. mem s (sp_region sp) = Some bs \<and> sp_off sp + sp_len sp \<le> length bs \<and>
        ys = take (sp_len sp) (drop (sp_off sp) bs))"
  by (auto simp: load_def split: option.splits)

lemma Copy_Some:
  "crypto_Copy dst src s = Some s1 \<longleftrightarrow>
     (\<exists>ys. load s src = Some ys \<and> store dst (take (min (slice_len dst) (slice_len src)) ys) s = Some s1)"
  by (auto simp: crypto_Copy_def split: option.splits)

lemma construct_Returned_D:
  assumes P: "pageSize e = P"
    and Lw: "roundToPageSize e (go_add sz 32) = Lw"
    and T: "go_add (go_mul 2 P) Lw = T"
    and ret: "NewBuffer_construct e sz s = Returned a s'"
  shows "\<exists>s1 s2 b. 
      a = next_buf s \<and> 0 < T \<and> os_ok e (trace s) (EvAlloc T) \<and>
      0 \<le> go_sub (go_add P Lw) sz \<and> go_sub (go_add P Lw) sz < T \<and>
      0 \<le> P \<and> P < T \<and> 0 \<le> go_add P Lw \<and> go_add P Lw < T \<and>
      0 \<le> go_sub P 32 \<and> go_sub P 32 < T \<and>
      0 \<le> go_sub (go_sub (go_add P Lw) sz) 32 \<and> go_sub (go_sub (go_add P Lw) sz) 32 < T \<and>
      os_ok e (trace s @ [EvAlloc T]) (EvLock (inner (built (next_region s) P Lw T sz))) \<and>
      os_ok e (trace s @ [EvAlloc T, EvLock (inner (built (next_region s) P Lw T sz))])
         (EvRand (canaryref (built (next_region s) P Lw T sz))) \<and>
      store (canaryref (built (next_region s) P Lw T sz))
        (map (rand_byte e (trace s @ [EvAlloc T, EvLock (inner (built (next_region s) P Lw T sz))])) [0..<32])
        (s\<lparr>next_buf := Suc (next_buf s),
           mem := (mem s)(next_region s \<mapsto> replicate (nat T) 0),
           next_region := Suc (next_region s),
           heap := (heap s)(next_buf s \<mapsto> built (next_region s) P Lw T sz),
           trace := trace s @ [EvAlloc T, EvLock (inner (built (next_region s) P Lw T sz)),
                      EvRand (canaryref (built (next_region s) P Lw T sz))]\<rparr>) = Some s1 \<and>
      crypto_Copy (canaryval (built (next_region s) P Lw T sz))
        (canaryref (built (next_region s) P Lw T sz)) s1 = Some s2 \<and>
      os_ok e (trace s2) (EvProtect (preguard (built (next_region s) P Lw T sz)) NoAccess) \<and>
      os_ok e (trace s2 @ [EvProtect (preguard (built (next_region s) P Lw T sz)) NoAccess])
         (EvProtect (postguard (built (next_region s) P Lw T sz)) NoAccess) \<and>
      heap s2 a = Some b \<and>
      s' = s2\<lparr>trace := trace s2 @ [EvProtect (preguard (built (next_region s) P Lw T sz)) NoAccess,
                   EvProtect (postguard (built (next_region s) P Lw T sz)) NoAccess],
             heap := (heap s2)(a \<mapsto> b\<lparr>alive := True, mutable := True\<rparr>)\<rparr>"
proof -
  note [simp] = NewBuffer_construct_def Let_def P Lw T then_do_Returned need_Returned
    need_state_Returned check_err_Returned assign_Returned new_Buffer_Returned Alloc_Returned
    Lock_ok Protect_ok rand_Returned index_addr_Some getBytes_def slice_len_def zero_Buffer_def
  note r = ret[simplified]
  from r show ?thesis
    apply (elim exE conjE)
    subgoal for s1 s1a s1b b ba
      apply (rule exI[of _ s1], rule exI[of _ s1a], rule exI[of _ b])
      apply (simp add: built_def)
      done
    done
qed

section \<open>What a store changes\<close>

lemma store_frame:
  assumes "store sl ys s = Some s1"
  shows "heap s1 = heap s" "next_buf s1 = next_buf s" "next_region s1 = next_region s"
    "parrays s1 = parrays s" "next_array s1 = next_array s" "buffers s1 = buffers s"
    "trace s1 = trace s" "dom (mem s1) = dom (mem s)"
  using assms by (auto simp: store_def split: option.splits if_splits)

lemma Copy_frame:
  assumes "crypto_Copy dst src s = Some s1"
  shows "heap s1 = heap s" "next_buf s1 = next_buf s" "next_region s1 = next_region s"
    "parrays s1 = parrays s" "next_array s1 = next_array s" "buffers s1 = buffers s"
    "trace s1 = trace s" "dom (mem s1) = dom (mem s)"
  using assms store_frame[of dst _ s s1] by (auto simp: crypto_Copy_def split: option.splits)

lemma store_mem_other:
  assumes "store (Some sp) ys s = Some s1" "r \<noteq> sp_region sp"
  shows "mem s1 r = mem s r"
  using assms by (auto simp: store_Some)

lemma load_store_same:
  assumes "store (Some sp) ys s = Some s1" "length ys = sp_len sp"
  shows "load s1 (Some sp) = Some ys"
  using assms by (auto simp: store_Some load_Some)

lemma nth_patch:
  assumes "off + length ys \<le> length bs" "i < length bs"
  shows "(take off bs @ ys @ drop (off + length ys) bs) ! i =
         (if off \<le> i \<and> i < off + length ys then ys ! (i - off) else bs ! i)"
proof -
  from assms have lt: "length (take off bs) = off" by simp
  show ?thesis
  proof (cases "i < off")
    case True
    with lt show ?thesis by (simp add: nth_append)
  next
    case False
    show ?thesis
    proof (cases "i < off + length ys")
      case True
      with False have "i - off < length ys" by arith
      with True False lt show ?thesis by (simp add: nth_append)
    next
      case False
      then have g: "off + length ys \<le> i" by simp
      then have "\<not> i < off" "\<not> i - off < length ys" by arith+
      moreover from g have "off + length ys + (i - off - length ys) = i" by arith
      ultimately show ?thesis using lt assms False by (simp add: nth_append)
    qed
  qed
qed

lemma length_patch:
  assumes "off + length ys \<le> length bs"
  shows "length (take off bs @ ys @ drop (off + length ys) bs) = length bs"
  using assms by simp

lemma take_drop_patch_apart:
  assumes "off + length ys \<le> length bs" "n + k \<le> off \<or> off + length ys \<le> n"
  shows "take k (drop n (take off bs @ ys @ drop (off + length ys) bs)) = take k (drop n bs)"
proof (rule nth_equalityI)
  show "length (take k (drop n (take off bs @ ys @ drop (off + length ys) bs))) = length (take k (drop n bs))"
    using length_patch[OF assms(1)] by (simp only: length_take length_drop)
next
  fix i
  assume "i < length (take k (drop n (take off bs @ ys @ drop (off + length ys) bs)))"
  then have "i < min (length bs - n) k"
    using length_patch[OF assms(1)] by (simp only: length_take length_drop)
  then have i: "i < k" "n + i < length bs" by auto
  with assms(2) have out: "\<not> (off \<le> n + i \<and> n + i < off + length ys)" by arith
  have "take k (drop n (take off bs @ ys @ drop (off + length ys) bs)) ! i =
        (take off bs @ ys @ drop (off + length ys) bs) ! (n + i)"
    using i length_patch[OF assms(1)] by (simp only: nth_take nth_drop)
  also have "\<dots> = bs ! (n + i)"
    using nth_patch[OF assms(1) i(2)] out by simp
  also have "\<dots> = take k (drop n bs) ! i" using i by simp
  finally show "take k (drop n (take off bs @ ys @ drop (off + length ys) bs)) ! i = take k (drop n bs) ! i" .
qed

lemma load_store_apart:
  assumes "store (Some sp) ys s = Some s1"
    and "sp_region sp' \<noteq> sp_region sp \<or> sp_off sp' + sp_len sp' \<le> sp_off sp \<or>
         sp_off sp + length ys \<le> sp_off sp'"
  shows "load s1 (Some sp') = load s (Some sp')"
proof -
  from assms(1) obtain bs where bs: "mem s (sp_region sp) = Some bs"
    "sp_off sp + sp_len sp \<le> length bs" "length ys \<le> sp_len sp"
    "s1 = s\<lparr>mem := (mem s)(sp_region sp \<mapsto> take (sp_off sp) bs @ ys @ drop (sp_off sp + length ys) bs)\<rparr>"
    by (auto simp: store_Some)
  show ?thesis
  proof (cases "sp_region sp' = sp_region sp")
    case False
    with bs show ?thesis by (simp add: load_def)
  next
    case True
    from bs have fit: "sp_off sp + length ys \<le> length bs" by simp
    from True assms(2) have "sp_off sp' + sp_len sp' \<le> sp_off sp \<or> sp_off sp + length ys \<le> sp_off sp'"
      by simp
    from take_drop_patch_apart[OF fit this] length_patch[OF fit] bs True
    show ?thesis by (simp add: load_def)
  qed
qed

section \<open>The construction of a buffer\<close>

lemma load_mem_cong: "mem s = mem s1 \<Longrightarrow> load s x = load s1 x"
  by (cases x) (simp_all add: load_def)

lemma construct_layout:
  assumes ret: "NewBuffer_construct e sz s = Returned a s'"
    and sz: "1 \<le> sz" "is_int64 sz" and pg: "page_ok e"
  shows "a = next_buf s"
    and "heap s' = (heap s)(a \<mapsto> spec_layout (next_region s) (pageSize e) (roundUp (sz + 32) (pageSize e)) sz)"
    and "next_buf s' = Suc a" "buffers s' = buffers s" "parrays s' = parrays s"
      "next_array s' = next_array s" "next_region s' = Suc (next_region s)"
    and "32 \<le> pageSize e"
    and "roundToPageSize e (go_add sz 32) = roundUp (sz + 32) (pageSize e)"
    and "load s' (canaryref (spec_layout (next_region s) (pageSize e) (roundUp (sz + 32) (pageSize e)) sz))
           = Some (fresh_canary e sz s)"
    and "load s' (canaryval (spec_layout (next_region s) (pageSize e) (roundUp (sz + 32) (pageSize e)) sz))
           = Some (fresh_canary e sz s)"
    and "\<exists>bytes. mem s' = (mem s)(next_region s \<mapsto> bytes) \<and>
           int (length bytes) = 2 * pageSize e + roundUp (sz + 32) (pageSize e)"
proof -
  let ?P = "pageSize e"
  let ?L = "roundUp (sz + 32) ?P"
  let ?T = "2 * ?P + ?L"
  let ?r = "next_region s"
  define Lw where "Lw = roundToPageSize e (go_add sz 32)"
  define T where "T = go_add (go_mul 2 ?P) Lw"
  from construct_Returned_D[OF refl Lw_def[symmetric] T_def[symmetric] ret]
  obtain s1 s2 b where d:
    "a = next_buf s" "0 < T"
    "0 \<le> go_sub ?P 32"
    "store (canaryref (built ?r ?P Lw T sz))
        (map (rand_byte e (trace s @ [EvAlloc T, EvLock (inner (built ?r ?P Lw T sz))])) [0..<32])
        (s\<lparr>next_buf := Suc (next_buf s),
           mem := (mem s)(?r \<mapsto> replicate (nat T) 0),
           next_region := Suc ?r,
           heap := (heap s)(next_buf s \<mapsto> built ?r ?P Lw T sz),
           trace := trace s @ [EvAlloc T, EvLock (inner (built ?r ?P Lw T sz)),
                      EvRand (canaryref (built ?r ?P Lw T sz))]\<rparr>) = Some s1"
    "crypto_Copy (canaryval (built ?r ?P Lw T sz)) (canaryref (built ?r ?P Lw T sz)) s1 = Some s2"
    "heap s2 a = Some b"
    "s' = s2\<lparr>trace := trace s2 @ [EvProtect (preguard (built ?r ?P Lw T sz)) NoAccess,
                   EvProtect (postguard (built ?r ?P Lw T sz)) NoAccess],
             heap := (heap s2)(a \<mapsto> b\<lparr>alive := True, mutable := True\<rparr>)\<rparr>"
    by blast
  from d(2) have tot: "0 \<le> go_add (go_mul 2 ?P) (roundToPageSize e (go_add sz 32))"
    by (simp add: T_def Lw_def)
  from layout_no_wrap[OF sz pg tot]
  have Lw: "Lw = ?L" and T: "T = ?T" and Ti: "is_int64 ?T"
    by (simp_all add: Lw_def T_def)
  from pg have P: "0 < ?P" "?P \<le> 4294967296" by (simp_all add: page_ok_def)
  from roundUp_bounds[OF P(1), of "sz + 32"] have L: "sz + 32 \<le> ?L" "?L < sz + 32 + ?P" by simp_all
  from P have "is_int64 (?P - 32)" by (simp add: is_int64_def)
  with d(3) show P32: "32 \<le> ?P" by (simp add: go_sub_def wrap64_id)
  have a1: "go_add ?P ?L = ?P + ?L"
    using P L sz Ti by (simp add: go_add_def wrap64_id is_int64_def)
  have a2: "go_sub (?P + ?L) sz = ?P + ?L - sz"
    using P L sz Ti by (simp add: go_sub_def wrap64_id is_int64_def)
  have a3: "go_sub (?P + ?L - sz) 32 = ?P + ?L - sz - 32"
    using P L sz Ti by (simp add: go_sub_def wrap64_id is_int64_def)
  have a4: "go_sub ?P 32 = ?P - 32"
    using P by (simp add: go_sub_def wrap64_id is_int64_def)
  have bl: "built ?r ?P Lw T sz = (spec_layout ?r ?P ?L sz)\<lparr>alive := False, mutable := False\<rparr>"
    by (simp add: built_def spec_layout_def Lw T a1 a2 a3 a4)
  show "a = next_buf s" by (rule d(1))
  show "roundToPageSize e (go_add sz 32) = ?L" using Lw by (simp add: Lw_def)
  note f1 = store_frame[OF d(4)]
  note f2 = Copy_frame[OF d(5)]
  from f1 f2 have h2: "heap s2 = (heap s)(a \<mapsto> built ?r ?P Lw T sz)" by (simp add: d(1))
  with d(6) have b: "b = built ?r ?P Lw T sz" by simp
  from d(7) h2 b bl show "heap s' = (heap s)(a \<mapsto> spec_layout ?r ?P ?L sz)"
    by (simp add: spec_layout_def)
  from d(7) f1 f2 show "next_buf s' = Suc a" "buffers s' = buffers s" "parrays s' = parrays s"
      "next_array s' = next_array s" "next_region s' = Suc (next_region s)"
    by (simp_all add: d(1))
  let ?ref = "\<lparr>sp_region = ?r, sp_off = nat (?P - 32), sp_len = 32\<rparr>"
  let ?val = "\<lparr>sp_region = ?r, sp_off = nat (?P + ?L - sz - 32), sp_len = 32\<rparr>"
  have cref: "canaryref (built ?r ?P Lw T sz) = Some ?ref" "canaryref (spec_layout ?r ?P ?L sz) = Some ?ref"
    and cval: "canaryval (built ?r ?P Lw T sz) = Some ?val" "canaryval (spec_layout ?r ?P ?L sz) = Some ?val"
    by (simp_all add: bl) (simp_all add: spec_layout_def)
  have cin: "inner (built ?r ?P Lw T' sz) = Some \<lparr>sp_region = ?r, sp_off = nat ?P, sp_len = nat ?L\<rparr>"
    for T' by (simp add: built_def Lw)
  have R: "map (rand_byte e (trace s @ [EvAlloc T, EvLock (inner (built ?r ?P Lw T sz))])) [0..<32]
           = fresh_canary e sz s"
    by (simp add: fresh_canary_def cin T)
  from d(4) have st: "store (Some ?ref) (fresh_canary e sz s)
        (s\<lparr>next_buf := Suc (next_buf s),
           mem := (mem s)(?r \<mapsto> replicate (nat T) 0),
           next_region := Suc ?r,
           heap := (heap s)(next_buf s \<mapsto> built ?r ?P Lw T sz),
           trace := trace s @ [EvAlloc T, EvLock (inner (built ?r ?P Lw T sz)),
                      EvRand (canaryref (built ?r ?P Lw T sz))]\<rparr>) = Some s1"
    by (simp only: R cref)
  have lenR: "length (fresh_canary e sz s) = 32" by (simp add: fresh_canary_def)
  from load_store_same[OF st] lenR have l1: "load s1 (Some ?ref) = Some (fresh_canary e sz s)" by simp
  from d(5) l1 have cp: "store (Some ?val) (fresh_canary e sz s) s1 = Some s2"
    by (simp add: Copy_Some cref cval slice_len_def lenR)
  from load_store_same[OF cp] lenR have l2: "load s2 (Some ?val) = Some (fresh_canary e sz s)" by simp
  have "sp_off ?ref + sp_len ?ref \<le> sp_off ?val" using P32 L sz by simp
  from load_store_apart[OF cp, of ?ref] this l1
  have l3: "load s2 (Some ?ref) = Some (fresh_canary e sz s)" by simp
  from d(7) have "mem s' = mem s2" by simp
  then have ms: "load s' x = load s2 x" for x by (rule load_mem_cong)
  from l3 show "load s' (canaryref (spec_layout ?r ?P ?L sz)) = Some (fresh_canary e sz s)"
    by (simp add: ms cref)
  from l2 show "load s' (canaryval (spec_layout ?r ?P ?L sz)) = Some (fresh_canary e sz s)"
    by (simp add: ms cval)
  from st obtain bs1 where bs1: "mem s1 = (mem s)(?r \<mapsto> bs1)" "length bs1 = nat T"
    by (auto simp: store_Some)
  from cp bs1 obtain bs2 where bs2: "mem s2 = (mem s)(?r \<mapsto> bs2)" "length bs2 = nat T"
    by (auto simp: store_Some)
  from d(7) bs2 have "mem s' = (mem s)(?r \<mapsto> bs2)" by simp
  moreover from bs2 d(2) T have "int (length bs2) = ?T" by simp
  ultimately show "\<exists>bytes. mem s' = (mem s)(?r \<mapsto> bytes) \<and> int (length bytes) = ?T"
    by blast
qed

lemma slice_elems_cong: "parrays s = parrays s1 \<Longrightarrow> slice_elems s sl = slice_elems s1 sl"
  by (cases sl) (simp_all add: slice_elems_def)

lemma Add_frame:
  shows "heap (BufferList_Add e p s) = heap s" "mem (BufferList_Add e p s) = mem s"
    "next_buf (BufferList_Add e p s) = next_buf s" "next_region (BufferList_Add e p s) = next_region s"
    "trace (BufferList_Add e p s) = trace s"
  by (auto simp: BufferList_Add_def go_append_def new_array_def Let_def split: option.splits)

lemma Remove_frame:
  shows "heap (BufferList_Remove p s) = heap s" "mem (BufferList_Remove p s) = mem s"
    "next_buf (BufferList_Remove p s) = next_buf s" "next_region (BufferList_Remove p s) = next_region s"
    "trace (BufferList_Remove p s) = trace s"
  by (auto simp: BufferList_Remove_def split: option.splits)

lemma NewBuffer_Returned:
  "NewBuffer e sz s = Returned (p, err) s' \<longleftrightarrow>
     (sz < 1 \<and> p = None \<and> err = Some ErrInvalidLength \<and> s' = s) \<or>
     (1 \<le> sz \<and> err = None \<and>
      (\<exists>a s1. NewBuffer_construct e sz s = Returned a s1 \<and> p = Some a \<and>
          s' = BufferList_Add e (Some a) s1))"
  by (auto simp: NewBuffer_def then_do_Returned)

lemmas exec_defs = NewBuffer_construct_def NewBuffer_def Let_def then_do_def new_Buffer_def
  memcall_Alloc_def go_add_def go_mul_def go_sub_def roundToPageSize_def wrap64_def assign_def
  need_def index_addr_def getBytes_def check_err_def memcall_Lock_def rand_Read_def store_def
  slice_len_def need_state_def crypto_Copy_def load_def memcall_Protect_def zero_Buffer_def
  BufferList_Add_def go_append_def new_array_def init_state_def

lemma granting_env_simps:
  "pageSize granting_env = 4096" "os_ok granting_env h ev" "growcap granting_env c n = 2 * c"
  "page_ok granting_env"
  by (simp_all add: granting_env_def page_ok_def)

lemma construct_granting:
  "\<exists>s1. NewBuffer_construct granting_env 4064 init_state = Returned 0 s1"
  by (simp add: exec_defs granting_env_def)

lemma NewBuffer_granting:
  "\<exists>s1. NewBuffer granting_env 4064 init_state = Returned (Some 0, None) s1"
  by (simp add: exec_defs granting_env_def)

section \<open>Freeze and Melt\<close>






section \<open>Wipes and the fatal handler\<close>

lemma zeroed_from_refl: "zeroed_from s s"
  by (auto simp: zeroed_from_def split: option.splits)

lemma zeroed_from_trans:
  assumes "zeroed_from s s1" "zeroed_from s1 s2"
  shows "zeroed_from s s2"
  unfolding zeroed_from_def
proof
  fix r
  show "case mem s r of None \<Rightarrow> mem s2 r = None
          | Some bs \<Rightarrow> (case mem s2 r of None \<Rightarrow> False
              | Some bs1 \<Rightarrow> length bs1 = length bs \<and> (\<forall>i<length bs. bs1 ! i = 0 \<or> bs1 ! i = bs ! i))"
  proof (cases "mem s r")
    case None
    with assms(1) have "mem s1 r = None" by (auto simp: zeroed_from_def dest: spec[of _ r])
    with assms(2) have "mem s2 r = None" by (auto simp: zeroed_from_def dest: spec[of _ r])
    with None show ?thesis by simp
  next
    case (Some bs)
    with assms(1) obtain bs1 where b1: "mem s1 r = Some bs1" "length bs1 = length bs"
      "\<forall>i<length bs. bs1 ! i = 0 \<or> bs1 ! i = bs ! i"
      by (auto simp: zeroed_from_def dest!: spec[of _ r] split: option.splits)
    with assms(2) obtain bs2 where b2: "mem s2 r = Some bs2" "length bs2 = length bs1"
      "\<forall>i<length bs1. bs2 ! i = 0 \<or> bs2 ! i = bs1 ! i"
      by (auto simp: zeroed_from_def dest!: spec[of _ r] split: option.splits)
    from b1 b2 have "\<forall>i<length bs. bs2 ! i = 0 \<or> bs2 ! i = bs ! i" by metis
    with Some b1 b2 show ?thesis by simp
  qed
qed

lemma span_zero_iff:
  "span_zero s (Some sp) \<longleftrightarrow>
     (\<exists>bs. mem s (sp_region sp) = Some bs \<and> sp_off sp + sp_len sp \<le> length bs \<and>
        (\<forall>i < sp_len sp. bs ! (sp_off sp + i) = 0))"
proof -
  have "take n (drop k bs) = replicate n (0::byte) \<longleftrightarrow> (\<forall>i<n. bs ! (k + i) = 0)"
    if "k + n \<le> length bs" for n k and bs :: "byte list"
  proof
    assume eq: "take n (drop k bs) = replicate n 0"
    show "\<forall>i<n. bs ! (k + i) = 0"
    proof (intro allI impI)
      fix i assume i: "i < n"
      with that have "take n (drop k bs) ! i = bs ! (k + i)" by simp
      with eq i show "bs ! (k + i) = 0" by simp
    qed
  next
    assume z: "\<forall>i<n. bs ! (k + i) = 0"
    show "take n (drop k bs) = replicate n 0"
    proof (rule nth_equalityI)
      show "length (take n (drop k bs)) = length (replicate n (0::byte))" using that by simp
    next
      fix i assume "i < length (take n (drop k bs))"
      with that have i: "i < n" by simp
      with that z show "take n (drop k bs) ! i = replicate n 0 ! i" by simp
    qed
  qed
  then show ?thesis
    by (auto simp: span_zero_def load_def slice_len_def split: option.splits)
qed

lemma span_zero_kept:
  assumes "zeroed_from s s1" "span_zero s sl"
  shows "span_zero s1 sl"
proof (cases sl)
  case None
  then show ?thesis by (simp add: span_zero_def load_def slice_len_def)
next
  case (Some sp)
  with assms(2) obtain bs where bs: "mem s (sp_region sp) = Some bs"
    "sp_off sp + sp_len sp \<le> length bs" "\<forall>i < sp_len sp. bs ! (sp_off sp + i) = 0"
    by (auto simp: span_zero_iff)
  with assms(1) obtain bs1 where b1: "mem s1 (sp_region sp) = Some bs1" "length bs1 = length bs"
    "\<forall>i<length bs. bs1 ! i = 0 \<or> bs1 ! i = bs ! i"
    by (auto simp: zeroed_from_def dest!: spec[of _ "sp_region sp"] split: option.splits)
  have "\<forall>i < sp_len sp. bs1 ! (sp_off sp + i) = 0"
  proof (intro allI impI)
    fix i assume i: "i < sp_len sp"
    with bs(2) have "sp_off sp + i < length bs" by simp
    with b1(3) have "bs1 ! (sp_off sp + i) = 0 \<or> bs1 ! (sp_off sp + i) = bs ! (sp_off sp + i)" by simp
    with bs(3) i show "bs1 ! (sp_off sp + i) = 0" by auto
  qed
  with b1 bs Some show ?thesis by (auto simp: span_zero_iff)
qed

lemma MemClr_frame:
  assumes "crypto_MemClr sl s = Some s1"
  shows "heap s1 = heap s" "next_buf s1 = next_buf s" "next_region s1 = next_region s"
    "parrays s1 = parrays s" "next_array s1 = next_array s" "buffers s1 = buffers s"
    "trace s1 = trace s @ [EvWipe sl]" "dom (mem s1) = dom (mem s)"
proof -
  from assms obtain s0 where st: "store sl (replicate (slice_len sl) 0) s = Some s0"
    and s1: "s1 = s0\<lparr>trace := trace s0 @ [EvWipe sl]\<rparr>"
    by (auto simp: crypto_MemClr_def split: option.splits)
  note f = store_frame[OF st]
  from s1 f show "heap s1 = heap s" "next_buf s1 = next_buf s" "next_region s1 = next_region s"
    "parrays s1 = parrays s" "next_array s1 = next_array s" "buffers s1 = buffers s"
    "trace s1 = trace s @ [EvWipe sl]" "dom (mem s1) = dom (mem s)"
    by simp_all
qed

lemma MemClr_zeroes:
  assumes "crypto_MemClr sl s = Some s1"
  shows "zeroed_from s s1" "span_zero s1 sl"
proof -
  from assms obtain s0 where st: "store sl (replicate (slice_len sl) 0) s = Some s0"
    and s1: "s1 = s0\<lparr>trace := trace s0 @ [EvWipe sl]\<rparr>"
    by (auto simp: crypto_MemClr_def split: option.splits)
  have m: "mem s1 = mem s0" by (simp add: s1)
  show "span_zero s1 sl"
  proof (cases sl)
    case None
    then show ?thesis by (simp add: span_zero_def load_def slice_len_def)
  next
    case (Some sp)
    with st have "load s0 (Some sp) = Some (replicate (sp_len sp) 0)"
      by (intro load_store_same) (simp_all add: slice_len_def)
    with Some load_mem_cong[OF m] show ?thesis by (simp add: span_zero_def slice_len_def)
  qed
  show "zeroed_from s s1"
  proof (cases sl)
    case None
    with st have "s0 = s" by (simp add: store_def slice_len_def)
    with m show ?thesis by (auto simp: zeroed_from_def split: option.splits)
  next
    case (Some sp)
    with st obtain bs where bs: "mem s (sp_region sp) = Some bs"
      "sp_off sp + sp_len sp \<le> length bs"
      "mem s0 = (mem s)(sp_region sp \<mapsto>
          take (sp_off sp) bs @ replicate (sp_len sp) 0 @ drop (sp_off sp + sp_len sp) bs)"
      by (auto simp: store_Some slice_len_def)
    let ?bs' = "take (sp_off sp) bs @ replicate (sp_len sp) (0::byte) @ drop (sp_off sp + sp_len sp) bs"
    have fit: "sp_off sp + length (replicate (sp_len sp) (0::byte)) \<le> length bs" using bs(2) by simp
    have len: "length ?bs' = length bs" using length_patch[OF fit] by simp
    have nth: "?bs' ! i = 0 \<or> ?bs' ! i = bs ! i" if "i < length bs" for i
      using nth_patch[OF fit that] by (auto split: if_splits)
    show ?thesis
      unfolding zeroed_from_def
    proof
      fix r
      show "case mem s r of None \<Rightarrow> mem s1 r = None
          | Some bs \<Rightarrow> (case mem s1 r of None \<Rightarrow> False
              | Some bs1 \<Rightarrow> length bs1 = length bs \<and> (\<forall>i<length bs. bs1 ! i = 0 \<or> bs1 ! i = bs ! i))"
      proof (cases "r = sp_region sp")
        case True
        with bs m len nth show ?thesis by simp
      next
        case False
        with bs m show ?thesis by (auto split: option.splits)
      qed
    qed
  qed
qed

lemma wipe_inner_frame:
  shows "heap (wipe_inner p s) = heap s" "next_buf (wipe_inner p s) = next_buf s"
    "next_region (wipe_inner p s) = next_region s" "parrays (wipe_inner p s) = parrays s"
    "next_array (wipe_inner p s) = next_array s" "buffers (wipe_inner p s) = buffers s"
    "dom (mem (wipe_inner p s)) = dom (mem s)"
  using MemClr_frame
  by (auto simp: wipe_inner_def split: option.splits)

lemma wipe_inner_zeroed: "zeroed_from s (wipe_inner p s)"
  using MemClr_zeroes(1) by (auto simp: wipe_inner_def zeroed_from_refl split: option.splits)

lemma wipe_inner_trace:
  "trace (wipe_inner p s) = trace s \<or>
   (\<exists>a b. p = Some a \<and> heap s a = Some b \<and> trace (wipe_inner p s) = trace s @ [EvWipe (inner b)])"
  using MemClr_frame(7) by (auto simp: wipe_inner_def split: option.splits)

lemma MemClr_defined:
  assumes "load s sl \<noteq> None"
  shows "\<exists>s1. crypto_MemClr sl s = Some s1"
proof (cases sl)
  case None
  then show ?thesis by (simp add: crypto_MemClr_def store_def slice_len_def)
next
  case (Some sp)
  with assms obtain bs where "mem s (sp_region sp) = Some bs" "sp_off sp + sp_len sp \<le> length bs"
    by (auto simp: load_def split: option.splits if_splits)
  with Some show ?thesis by (simp add: crypto_MemClr_def store_def slice_len_def)
qed

lemma wipe_inner_zero:
  assumes "heap s a = Some b" "load s (inner b) \<noteq> None"
  shows "span_zero (wipe_inner (Some a) s) (inner b)"
proof -
  from MemClr_defined[OF assms(2)] obtain s1 where c: "crypto_MemClr (inner b) s = Some s1"
    by blast
  from assms(1) c MemClr_zeroes(2)[OF c] show ?thesis by (simp add: wipe_inner_def)
qed

lemma load_defined_kept:
  assumes "zeroed_from s s1" "load s sl \<noteq> None"
  shows "load s1 sl \<noteq> None"
proof (cases sl)
  case None
  then show ?thesis by (simp add: load_def)
next
  case (Some sp)
  with assms(2) obtain bs where bs: "mem s (sp_region sp) = Some bs" "sp_off sp + sp_len sp \<le> length bs"
    by (auto simp: load_def split: option.splits if_splits)
  with assms(1) obtain bs1 where "mem s1 (sp_region sp) = Some bs1" "length bs1 = length bs"
    by (auto simp: zeroed_from_def dest!: spec[of _ "sp_region sp"] split: option.splits)
  with bs Some show ?thesis by (simp add: load_def)
qed

lemma fold_wipe_frame:
  "heap (fold wipe_inner ps s) = heap s \<and> next_buf (fold wipe_inner ps s) = next_buf s \<and>
   next_region (fold wipe_inner ps s) = next_region s \<and> parrays (fold wipe_inner ps s) = parrays s \<and>
   next_array (fold wipe_inner ps s) = next_array s \<and> buffers (fold wipe_inner ps s) = buffers s \<and>
   dom (mem (fold wipe_inner ps s)) = dom (mem s)"
  by (induction ps arbitrary: s) (simp_all add: wipe_inner_frame)

lemma fold_wipe_zeroed: "zeroed_from s (fold wipe_inner ps s)"
proof (induction ps arbitrary: s)
  case Nil
  then show ?case by (simp add: zeroed_from_refl)
next
  case (Cons p ps)
  from zeroed_from_trans[OF wipe_inner_zeroed[of s p] Cons.IH[of "wipe_inner p s"]]
  show ?case by simp
qed

lemma fold_wipe_trace:
  "\<exists>ws. trace (fold wipe_inner ps s) = trace s @ ws \<and>
      (\<forall>ev\<in>set ws. \<exists>a b. Some a \<in> set ps \<and> heap s a = Some b \<and> ev = EvWipe (inner b))"
proof (induction ps arbitrary: s)
  case Nil
  then show ?case by simp
next
  case (Cons p ps)
  let ?s1 = "wipe_inner p s"
  let ?s2 = "fold wipe_inner ps ?s1"
  note f = wipe_inner_frame[of p s]
  from Cons.IH[of ?s1] obtain ws where ws: "trace ?s2 = trace ?s1 @ ws"
    "\<forall>ev\<in>set ws. \<exists>a b. Some a \<in> set ps \<and> heap ?s1 a = Some b \<and> ev = EvWipe (inner b)"
    by blast
  have ws': "\<forall>ev\<in>set ws. \<exists>a b. Some a \<in> set (p # ps) \<and> heap s a = Some b \<and> ev = EvWipe (inner b)"
  proof
    fix ev assume "ev \<in> set ws"
    with ws(2) obtain a b where "Some a \<in> set ps" "heap ?s1 a = Some b" "ev = EvWipe (inner b)"
      by blast
    with f(1) show "\<exists>a b. Some a \<in> set (p # ps) \<and> heap s a = Some b \<and> ev = EvWipe (inner b)"
      by (intro exI[of _ a] exI[of _ b]) simp
  qed
  from wipe_inner_trace[of p s] show ?case
  proof
    assume "trace ?s1 = trace s"
    with ws(1) ws' show ?thesis by (intro exI[of _ ws]) simp
  next
    assume "\<exists>a b. p = Some a \<and> heap s a = Some b \<and> trace ?s1 = trace s @ [EvWipe (inner b)]"
    then obtain a b where ab: "p = Some a" "heap s a = Some b" "trace ?s1 = trace s @ [EvWipe (inner b)]"
      by blast
    have "\<exists>a' b'. Some a' \<in> set (p # ps) \<and> heap s a' = Some b' \<and> EvWipe (inner b) = EvWipe (inner b')"
      using ab by (intro exI[of _ a] exI[of _ b]) simp
    with ab ws(1) ws' show ?thesis by (intro exI[of _ "EvWipe (inner b) # ws"]) simp
  qed
qed

lemma fold_wipe_zero:
  assumes "Some a \<in> set ps" "heap s a = Some b" "load s (inner b) \<noteq> None"
  shows "span_zero (fold wipe_inner ps s) (inner b)"
  using assms
proof (induction ps arbitrary: s)
  case Nil
  then show ?case by simp
next
  case (Cons p ps)
  let ?s1 = "wipe_inner p s"
  let ?s2 = "fold wipe_inner ps ?s1"
  have z1: "zeroed_from s ?s1" by (rule wipe_inner_zeroed)
  have z2: "zeroed_from ?s1 ?s2" by (rule fold_wipe_zeroed)
  have "span_zero ?s2 (inner b)"
  proof (cases "p = Some a")
    case True
    with wipe_inner_zero[OF Cons.prems(2) Cons.prems(3)] have "span_zero ?s1 (inner b)" by simp
    then show ?thesis by (rule span_zero_kept[OF z2])
  next
    case False
    with Cons.prems(1) have "Some a \<in> set ps" by simp
    moreover from Cons.prems(2) have "heap ?s1 a = Some b" by (simp add: wipe_inner_frame)
    moreover from load_defined_kept[OF z1 Cons.prems(3)] have "load ?s1 (inner b) \<noteq> None" .
    ultimately show ?thesis by (rule Cons.IH)
  qed
  then show ?case by simp
qed

lemma zeroed_from_mem_cong:
  assumes "mem s2 = mem s1" "zeroed_from s s1"
  shows "zeroed_from s s2"
  using assms by (simp add: zeroed_from_def cong: option.case_cong)

lemma Panic_Fatal:
  "\<exists>s' ws. Panic v s = Fatal s' \<and>
     heap s' = heap s \<and> next_buf s' = next_buf s \<and> next_region s' = next_region s \<and>
     parrays s' = parrays s \<and> next_array s' = next_array s \<and> buffers s' = buffers s \<and>
     dom (mem s') = dom (mem s) \<and> zeroed_from s s' \<and>
     trace s' = trace s @ ws @ [EvPanic v] \<and> (\<forall>ev\<in>set ws. inner_wipe s ev) \<and>
     (\<forall>a b. Some a \<in> set (registry s) \<and> heap s a = Some b \<and> load s (inner b) \<noteq> None \<longrightarrow>
        span_zero s' (inner b))"
proof -
  let ?s1 = "fold wipe_inner (registry s) s"
  let ?s' = "?s1\<lparr>trace := trace ?s1 @ [EvPanic v]\<rparr>"
  note fr = fold_wipe_frame[of "registry s" s]
  from fold_wipe_trace[of "registry s" s] obtain ws where ws: "trace ?s1 = trace s @ ws"
    "\<forall>ev\<in>set ws. \<exists>a b. Some a \<in> set (registry s) \<and> heap s a = Some b \<and> ev = EvWipe (inner b)"
    by blast
  have m: "mem ?s' = mem ?s1" by simp
  have z: "zeroed_from s ?s'" by (rule zeroed_from_mem_cong[OF m fold_wipe_zeroed])
  have sz: "span_zero ?s' sl = span_zero ?s1 sl" for sl
    using load_mem_cong[OF m] by (simp add: span_zero_def)
  have zs: "\<forall>a b. Some a \<in> set (registry s) \<and> heap s a = Some b \<and> load s (inner b) \<noteq> None \<longrightarrow>
        span_zero ?s' (inner b)"
  proof (intro allI impI)
    fix a b
    assume "Some a \<in> set (registry s) \<and> heap s a = Some b \<and> load s (inner b) \<noteq> None"
    then have "span_zero ?s1 (inner b)" by (intro fold_wipe_zero) auto
    then show "span_zero ?s' (inner b)" by (simp only: sz)
  qed
  have iw: "\<forall>ev\<in>set ws. inner_wipe s ev" using ws(2) by (simp add: inner_wipe_def)
  have P: "Panic v s = Fatal ?s'" by (simp add: Panic_def Let_def)
  show ?thesis
    apply (rule exI[of _ ?s'], rule exI[of _ ws])
    using P fr ws(1) z iw zs by simp
qed

section \<open>Destruction\<close>

lemma panics_append: "panics (xs @ ys) = panics xs @ panics ys"
  by (induction xs rule: panics.induct) simp_all

lemma panics_wipes:
  assumes "\<forall>ev\<in>set ws. inner_wipe s ev"
  shows "panics ws = []"
  using assms by (induction ws rule: panics.induct) (auto simp: inner_wipe_def)

lemma Destroy_dead:
  assumes "heap s a = Some b" "\<not> alive b"
  shows "DestroyBuffer e (Some a) s = Returned () s"
  using assms by (simp add: DestroyBuffer_def deref_def)

lemma Destroy_protect_refused:
  assumes "heap s a = Some b" "alive b" "\<not> os_ok e (trace s) (EvProtect (memory b) ReadWrite)"
  shows "DestroyBuffer e (Some a) s =
         Panic (PanicErr ProtectFailed) (s\<lparr>trace := trace s @ [EvProtect (memory b) ReadWrite]\<rparr>)"
  using assms
  by (simp add: DestroyBuffer_def deref_def then_do_def check_err_def memcall_Protect_def Panic_def Let_def)

lemma Destroy_canary_mismatch:
  assumes "heap s a = Some b" "alive b" "os_ok e (trace s) (EvProtect (memory b) ReadWrite)"
    and "load s (canaryval b) = Some cv" "load s (canaryref b) = Some cr" "cv \<noteq> cr"
  shows "DestroyBuffer e (Some a) s =
         Panic (PanicMsg canary_msg) (s\<lparr>trace := trace s @ [EvProtect (memory b) ReadWrite]\<rparr>)"
proof -
  let ?s1 = "s\<lparr>trace := trace s @ [EvProtect (memory b) ReadWrite]\<rparr>"
  have "mem ?s1 = mem s" by simp
  from load_mem_cong[OF this] assms(4-6)
  have "crypto_Equal ?s1 (canaryval b) (canaryref b) = Some False"
    by (simp add: crypto_Equal_def)
  with assms(1-3) show ?thesis
    by (simp add: DestroyBuffer_def deref_def then_do_def check_err_def memcall_Protect_def need_def)
qed

lemma Destroy_intact:
  assumes "heap s a = Some b" "alive b" "os_ok e (trace s) (EvProtect (memory b) ReadWrite)"
    and "load s (canaryval b) = Some cv" "load s (canaryref b) = Some cv"
    and "load s (memory b) \<noteq> None"
    and "os_ok e (trace s @ [EvProtect (memory b) ReadWrite, EvWipe (memory b)]) (EvUnlock (inner b))"
    and "os_ok e (trace s @ [EvProtect (memory b) ReadWrite, EvWipe (memory b), EvUnlock (inner b)])
           (EvFree (memory b))"
  shows "\<exists>s3 m. crypto_MemClr (memory b)
            (BufferList_Remove (Some a) (s\<lparr>trace := trace s @ [EvProtect (memory b) ReadWrite]\<rparr>)) = Some s3 \<and>
         DestroyBuffer e (Some a) s = Returned ()
           (s3\<lparr>trace := trace s @ [EvProtect (memory b) ReadWrite, EvWipe (memory b),
                            EvUnlock (inner b), EvFree (memory b)],
               mem := m,
               heap := (heap s)(a \<mapsto> b\<lparr>alive := False, mutable := False, Data := None,
                       memory := None, preguard := None, postguard := None,
                       canaryref := None, canaryval := None\<rparr>)\<rparr>)"
proof -
  let ?s1 = "s\<lparr>trace := trace s @ [EvProtect (memory b) ReadWrite]\<rparr>"
  let ?s2 = "BufferList_Remove (Some a) ?s1"
  have m1: "mem ?s1 = mem s" by simp
  from load_mem_cong[OF m1] assms(4,5)
  have eq: "crypto_Equal ?s1 (canaryval b) (canaryref b) = Some True"
    by (simp add: crypto_Equal_def)
  have m2: "mem ?s2 = mem s" by (simp add: Remove_frame)
  from load_mem_cong[OF m2] assms(6) have "load ?s2 (memory b) \<noteq> None" by simp
  from MemClr_defined[OF this] obtain s3 where s3: "crypto_MemClr (memory b) ?s2 = Some s3" by blast
  note f3 = MemClr_frame[OF s3]
  have tr3: "trace s3 = trace s @ [EvProtect (memory b) ReadWrite, EvWipe (memory b)]"
    using f3(7) by (simp add: Remove_frame)
  have h3: "heap s3 = heap s" using f3(1) by (simp add: Remove_frame)
  let ?m = "case memory b of None \<Rightarrow> mem s3 | Some sp \<Rightarrow> (mem s3)(sp_region sp := None)"
  have "DestroyBuffer e (Some a) s = Returned ()
           (s3\<lparr>trace := trace s @ [EvProtect (memory b) ReadWrite, EvWipe (memory b),
                            EvUnlock (inner b), EvFree (memory b)],
               mem := ?m,
               heap := (heap s)(a \<mapsto> b\<lparr>alive := False, mutable := False, Data := None,
                       memory := None, preguard := None, postguard := None,
                       canaryref := None, canaryval := None\<rparr>)\<rparr>)"
    using assms(1-3) eq s3 assms(7,8) tr3 h3
    by (simp add: DestroyBuffer_def deref_def then_do_def check_err_def memcall_Protect_def need_def
        need_state_def memcall_Unlock_def memcall_Free_def Let_def assign_def split: option.splits)
  with s3 show ?thesis by blast
qed

lemma Free_ok: "memcall_Free e sl s = (None, s1) \<longleftrightarrow>
   os_ok e (trace s) (EvFree sl) \<and>
   s1 = (case sl of None \<Rightarrow> s\<lparr>trace := trace s @ [EvFree sl]\<rparr>
         | Some sp \<Rightarrow> s\<lparr>trace := trace s @ [EvFree sl], mem := (mem s)(sp_region sp := None)\<rparr>)"
  by (auto simp: memcall_Free_def Let_def split: option.splits)

lemma Destroy_Returned_D:
  assumes h: "heap s a = Some b" and al: "alive b"
    and ret: "DestroyBuffer e (Some a) s = Returned () s1"
  shows "crypto_Equal s (canaryval b) (canaryref b) = Some True"
    and "heap s1 = (heap s)(a \<mapsto> b\<lparr>alive := False, mutable := False, Data := None,
                       memory := None, preguard := None, postguard := None,
                       canaryref := None, canaryval := None\<rparr>)"
    and "trace s1 = trace s @ [EvProtect (memory b) ReadWrite, EvWipe (memory b),
                            EvUnlock (inner b), EvFree (memory b)]"
proof -
  let ?s1 = "s\<lparr>trace := trace s @ [EvProtect (memory b) ReadWrite]\<rparr>"
  let ?s2 = "BufferList_Remove (Some a) ?s1"
  let ?f = "\<lambda>b. b\<lparr>alive := False, mutable := False, Data := None,
                       memory := None, preguard := None, postguard := None,
                       canaryref := None, canaryval := None\<rparr>"
  from ret h al obtain eq s3 s4 s5 where
    eq: "crypto_Equal ?s1 (canaryval b) (canaryref b) = Some eq" and e: "eq"
    and s3: "crypto_MemClr (memory b) ?s2 = Some s3"
    and s4: "s4 = s3\<lparr>trace := trace s3 @ [EvUnlock (inner b)]\<rparr>"
    and s5: "memcall_Free e (memory b) s4 = (None, s5)"
    and s1: "assign a ?f s5 = Returned () s1"
    by (auto simp: DestroyBuffer_def deref_def then_do_Returned check_err_Returned need_Returned
        need_state_Returned Protect_ok Unlock_ok Panic_not_Returned split: if_splits)
  have m1: "mem ?s1 = mem s" by simp
  have "crypto_Equal ?s1 x y = crypto_Equal s x y" for x y
    using load_mem_cong[OF m1] by (simp add: crypto_Equal_def cong: option.case_cong)
  with eq e show "crypto_Equal s (canaryval b) (canaryref b) = Some True" by simp
  note f3 = MemClr_frame[OF s3]
  have h3: "heap s3 = heap s" using f3(1) by (simp add: Remove_frame)
  have tr3: "trace s3 = trace s @ [EvProtect (memory b) ReadWrite, EvWipe (memory b)]"
    using f3(7) by (simp add: Remove_frame)
  from s5 have h5: "heap s5 = heap s4" and tr5: "trace s5 = trace s4 @ [EvFree (memory b)]"
    by (auto simp: Free_ok split: option.splits)
  from s1 obtain b' where "heap s5 a = Some b'" and s1': "s1 = s5\<lparr>heap := (heap s5)(a \<mapsto> ?f b')\<rparr>"
    by (auto simp: assign_Returned)
  with h5 s4 h3 h have b': "b' = b" by simp
  from s1' b' h5 s4 h3
  show "heap s1 = (heap s)(a \<mapsto> ?f b)" by simp
  from s1' tr5 s4 tr3
  show "trace s1 = trace s @ [EvProtect (memory b) ReadWrite, EvWipe (memory b),
                            EvUnlock (inner b), EvFree (memory b)]" by simp
qed

lemma Destroy_twice:
  "then_do (DestroyBuffer e (Some a)) (\<lambda>u. DestroyBuffer e2 (Some a)) s = DestroyBuffer e (Some a) s"
proof (cases "DestroyBuffer e (Some a) s")
  case (Returned u s1)
  show ?thesis
  proof (cases "heap s a")
    case None
    with Returned show ?thesis by (simp add: DestroyBuffer_def deref_def)
  next
    case (Some b)
    show ?thesis
    proof (cases "alive b")
      case False
      with Some have "DestroyBuffer e' (Some a) s = Returned () s" for e'
        by (rule Destroy_dead)
      then show ?thesis by (simp add: then_do_def)
    next
      case True
      from Destroy_Returned_D(2)[OF Some True] Returned
      have "heap s1 a = Some (b\<lparr>alive := False, mutable := False, Data := None,
                       memory := None, preguard := None, postguard := None,
                       canaryref := None, canaryval := None\<rparr>)" by simp
      then have "DestroyBuffer e2 (Some a) s1 = Returned () s1"
        by (rule Destroy_dead) simp
      with Returned show ?thesis by (simp add: then_do_def)
    qed
  qed
qed (simp_all add: then_do_def)

lemma inner_wipe_cong:
  assumes "heap s1 = heap s" "parrays s1 = parrays s" "buffers s1 = buffers s"
  shows "inner_wipe s1 ev = inner_wipe s ev"
  using assms slice_elems_cong[of s1 s "buffers s"] by (simp add: inner_wipe_def)

lemma one_buffer_state:
  assumes "pageSize e = 4096" and "rand_byte e = (\<lambda>h i. of_nat i + 1)"
    and "\<And>h n. os_ok e h (EvAlloc n)" and "\<And>h sl. os_ok e h (EvLock sl)"
    and "\<And>h sl. os_ok e h (EvRand sl)" and "\<And>h sl. os_ok e h (EvProtect sl NoAccess)"
  shows "heap (one_buffer e) 0 = Some (spec_layout 0 4096 4096 1)"
    and "mem (one_buffer e) 0 =
     Some (replicate 4064 0 @ count_canary @ replicate 4063 0 @ count_canary @ replicate 4097 0)"
    and "registry (one_buffer e) = [Some 0]"
    and "panics (trace (one_buffer e)) = []"
  using assms
  by (simp_all add: one_buffer_def exec_defs completed_def slice_elems_def spec_layout_def
      count_canary_def replicate_add[symmetric])

lemma tampered_state:
  assumes "pageSize e = 4096" and "rand_byte e = (\<lambda>h i. of_nat i + 1)"
    and "\<And>h n. os_ok e h (EvAlloc n)" and "\<And>h sl. os_ok e h (EvLock sl)"
    and "\<And>h sl. os_ok e h (EvRand sl)" and "\<And>h sl. os_ok e h (EvProtect sl NoAccess)"
  shows "heap (tampered e) 0 = Some (spec_layout 0 4096 4096 1)"
    and "mem (tampered e) 0 =
     Some (replicate 4064 0 @ count_canary @ replicate 4063 0 @ (0 # tl count_canary) @ replicate 4097 0)"
    and "registry (tampered e) = [Some 0]"
    and "trace (tampered e) = trace (one_buffer e)"
proof -
  note ob = one_buffer_state[OF assms]
  have len: "length count_canary = 32" by (simp add: count_canary_def)
  let ?bs = "replicate 4064 0 @ count_canary @ replicate 4063 0 @ count_canary @ replicate 4097 0"
  have "count_canary[0 := 0] = 0 # tl count_canary"
    by (simp add: count_canary_def upt_rec[of 0])
  then have "?bs[8159 := 0] =
     replicate 4064 0 @ count_canary @ replicate 4063 0 @ (0 # tl count_canary) @ replicate 4097 0"
    using len by (simp add: list_update_append)
  moreover have "8159 < length ?bs" using len by simp
  ultimately have t: "tampered e = (one_buffer e)\<lparr>mem := (mem (one_buffer e))(0 \<mapsto>
      replicate 4064 0 @ count_canary @ replicate 4063 0 @ (0 # tl count_canary) @ replicate 4097 0)\<rparr>"
    using ob(2) by (simp add: tampered_def poke_def)
  from t ob(1) show "heap (tampered e) 0 = Some (spec_layout 0 4096 4096 1)" by simp
  from t show "mem (tampered e) 0 =
     Some (replicate 4064 0 @ count_canary @ replicate 4063 0 @ (0 # tl count_canary) @ replicate 4097 0)"
    by simp
  from t ob(3) slice_elems_cong[of "tampered e" "one_buffer e" "buffers (one_buffer e)"]
  show "registry (tampered e) = [Some 0]" by simp
  from t show "trace (tampered e) = trace (one_buffer e)" by simp
qed

lemma load_canaries:
  assumes "mem s 0 =
     Some (replicate 4064 0 @ count_canary @ replicate 4063 0 @ cv @ replicate 4097 0)"
    and "length cv = 32"
  shows "load s (canaryref (spec_layout 0 4096 4096 1)) = Some count_canary"
    and "load s (canaryval (spec_layout 0 4096 4096 1)) = Some cv"
    and "load s (memory (spec_layout 0 4096 4096 1)) \<noteq> None"
proof -
  have len: "length count_canary = 32" by (simp add: count_canary_def)
  from assms len show "load s (canaryref (spec_layout 0 4096 4096 1)) = Some count_canary"
    by (simp add: load_def spec_layout_def)
  from assms len show "load s (canaryval (spec_layout 0 4096 4096 1)) = Some cv"
    by (simp add: load_def spec_layout_def)
  from assms len show "load s (memory (spec_layout 0 4096 4096 1)) \<noteq> None"
    by (simp add: load_def spec_layout_def)
qed

lemma env_grants:
  "pageSize granting_env = 4096" "rand_byte granting_env = (\<lambda>h i. of_nat i + 1)"
  "\<And>h ev. os_ok granting_env h ev"
  "pageSize guard_only_env = 4096" "rand_byte guard_only_env = (\<lambda>h i. of_nat i + 1)"
  "\<And>h n. os_ok guard_only_env h (EvAlloc n)" "\<And>h sl. os_ok guard_only_env h (EvLock sl)"
  "\<And>h sl. os_ok guard_only_env h (EvRand sl)"
  "\<And>h sl m. os_ok guard_only_env h (EvProtect sl m) \<longleftrightarrow> m = NoAccess"
  by (simp_all add: granting_env_def guard_only_env_def)

lemma tampered_differs: "0 # tl count_canary \<noteq> count_canary" "length (0 # tl count_canary) = 32"
  by (simp_all add: count_canary_def upt_rec[of 0])

lemma fatal_value_Panic: "fatal_value (Panic v s) = Some v"
  by (simp add: Panic_def Let_def fatal_value_def)

section \<open>The invariant of the registry\<close>

lemma registry_inv_init: "registry_inv init_state"
  by (simp add: registry_inv_def reg_wf_def slice_elems_def init_state_def is_alive_def)

lemma reg_wf_cong:
  assumes "buffers s1 = buffers s" "parrays s1 = parrays s" "next_array s1 = next_array s"
  shows "reg_wf s1 = reg_wf s"
  using assms by (simp add: reg_wf_def cong: option.case_cong)

lemma registry_inv_cong:
  assumes "buffers s1 = buffers s" "parrays s1 = parrays s" "next_array s1 = next_array s"
    "next_buf s1 = next_buf s" "\<And>a. is_alive s1 a = is_alive s a"
  shows "registry_inv s1 = registry_inv s"
proof -
  have "registry s1 = registry s" using slice_elems_cong[of s1 s "buffers s"] assms by simp
  moreover have "reg_wf s1 = reg_wf s" using assms by (intro reg_wf_cong)
  ultimately show ?thesis using assms by (simp add: registry_inv_def)
qed

lemma construct_frame:
  assumes ret: "NewBuffer_construct e sz s = Returned a s1"
  shows "a = next_buf s" "\<exists>b. heap s1 = (heap s)(a \<mapsto> b) \<and> alive b \<and> mutable b"
    "next_buf s1 = Suc a"
    "buffers s1 = buffers s" "parrays s1 = parrays s" "next_array s1 = next_array s"
proof -
  let ?B = "built (next_region s) (pageSize e) (roundToPageSize e (go_add sz 32))
              (go_add (go_mul 2 (pageSize e)) (roundToPageSize e (go_add sz 32))) sz"
  from construct_Returned_D[OF refl refl refl ret] obtain s2 s3 b s0 where
    a: "a = next_buf s"
    and s0: "s0 = s\<lparr>next_buf := Suc (next_buf s),
           mem := (mem s)(next_region s \<mapsto> replicate (nat (go_add (go_mul 2 (pageSize e)) (roundToPageSize e (go_add sz 32)))) 0),
           next_region := Suc (next_region s),
           heap := (heap s)(next_buf s \<mapsto> ?B),
           trace := trace s @ [EvAlloc (go_add (go_mul 2 (pageSize e)) (roundToPageSize e (go_add sz 32))),
              EvLock (inner ?B), EvRand (canaryref ?B)]\<rparr>"
    and st: "store (canaryref ?B)
        (map (rand_byte e (trace s @ [EvAlloc (go_add (go_mul 2 (pageSize e)) (roundToPageSize e (go_add sz 32))),
            EvLock (inner ?B)])) [0..<32]) s0 = Some s2"
    and cp: "crypto_Copy (canaryval ?B) (canaryref ?B) s2 = Some s3"
    and fin: "\<exists>tr. s1 = s3\<lparr>trace := tr, heap := (heap s3)(a \<mapsto> b\<lparr>alive := True, mutable := True\<rparr>)\<rparr>"
    by blast
  note f1 = store_frame[OF st] and f2 = Copy_frame[OF cp]
  from fin obtain tr where s1: "s1 = s3\<lparr>trace := tr, heap := (heap s3)(a \<mapsto> b\<lparr>alive := True, mutable := True\<rparr>)\<rparr>"
    by blast
  show "a = next_buf s" by (rule a)
  from s1 f1 f2 s0 a have "heap s1 = (heap s)(a \<mapsto> b\<lparr>alive := True, mutable := True\<rparr>)"
    by simp
  then show "\<exists>b. heap s1 = (heap s)(a \<mapsto> b) \<and> alive b \<and> mutable b"
    by (intro exI[of _ "b\<lparr>alive := True, mutable := True\<rparr>"]) simp
  from s1 f1 f2 s0 a show "next_buf s1 = Suc a" "buffers s1 = buffers s" "parrays s1 = parrays s"
    "next_array s1 = next_array s" by simp_all
qed

lemma registry_inv_NewBuffer:
  assumes inv: "registry_inv s" and ret: "NewBuffer e sz s = Returned r s'"
  shows "registry_inv s'"
proof (cases "sz < 1")
  case True
  with ret inv show ?thesis by (simp add: NewBuffer_def)
next
  case False
  with ret obtain a s1 where c: "NewBuffer_construct e sz s = Returned a s1"
    and s': "s' = BufferList_Add e (Some a) s1"
    by (cases r) (auto simp: NewBuffer_Returned)
  note f = construct_frame[OF c]
  from f(2) obtain b where b: "heap s1 = (heap s)(a \<mapsto> b)" "alive b" by blast
  have r1: "registry s1 = registry s" using slice_elems_cong[of s1 s "buffers s"] f by simp
  have wf1: "reg_wf s1" using inv reg_wf_cong[of s1 s] f by (simp add: registry_inv_def)
  have reg: "registry s' = registry s @ [Some a]" using registry_Add[OF wf1] r1 s' by simp
  have wf: "reg_wf s'" using reg_wf_Add[OF wf1] s' by simp
  have al: "is_alive s' x \<longleftrightarrow> x = a \<or> is_alive s x" for x
    using b s' by (simp add: is_alive_def Add_frame)
  have nb: "next_buf s' = Suc (next_buf s)" using f s' by (simp add: Add_frame)
  from inv have old: "distinct (registry s)"
    "\<forall>p\<in>set (registry s). \<exists>x. p = Some x \<and> x < next_buf s \<and> is_alive s x"
    "\<forall>x. is_alive s x \<longrightarrow> Some x \<in> set (registry s)"
    by (simp_all add: registry_inv_def)
  from old(2) f(1) have fresh: "Some a \<notin> set (registry s)" by auto
  have "\<forall>p\<in>set (registry s'). \<exists>x. p = Some x \<and> x < next_buf s' \<and> is_alive s' x"
  proof
    fix p assume "p \<in> set (registry s')"
    then have "p = Some a \<or> p \<in> set (registry s)" by (auto simp: reg)
    then show "\<exists>x. p = Some x \<and> x < next_buf s' \<and> is_alive s' x"
    proof
      assume "p = Some a"
      then show ?thesis using f(1) nb al by simp
    next
      assume "p \<in> set (registry s)"
      with old(2) obtain x where "p = Some x" "x < next_buf s" "is_alive s x" by blast
      then show ?thesis using nb al by simp
    qed
  qed
  moreover have "\<forall>x. is_alive s' x \<longrightarrow> Some x \<in> set (registry s')"
    using al old(3) by (auto simp: reg)
  moreover have "distinct (registry s')" using old(1) fresh by (simp add: reg)
  ultimately show ?thesis using wf by (simp add: registry_inv_def)
qed

lemma registry_inv_Freeze:
  assumes inv: "registry_inv s" and ret: "Freeze e p s = Returned r s'"
  shows "registry_inv s'"
proof -
  from ret obtain a b where ab: "p = Some a" "heap s a = Some b"
    by (cases p; cases "heap s (the p)") (auto simp: Freeze_def deref_def)
  have "s' = s \<or> (alive b \<and> (\<exists>tr. s' = s\<lparr>trace := tr, heap := (heap s)(a \<mapsto> b\<lparr>mutable := False\<rparr>)\<rparr>))"
    using ret ab
    by (auto simp: Freeze_def deref_def then_do_Returned check_err_Returned Protect_ok assign_Returned
        split: if_splits)
  then show ?thesis
  proof
    assume "s' = s" with inv show ?thesis by simp
  next
    assume "alive b \<and> (\<exists>tr. s' = s\<lparr>trace := tr, heap := (heap s)(a \<mapsto> b\<lparr>mutable := False\<rparr>)\<rparr>)"
    then obtain tr where s': "alive b" "s' = s\<lparr>trace := tr, heap := (heap s)(a \<mapsto> b\<lparr>mutable := False\<rparr>)\<rparr>"
      by blast
    have "is_alive s' x = is_alive s x" for x using s' ab by (simp add: is_alive_def)
    from registry_inv_cong[of s' s, OF _ _ _ _ this] s' inv show ?thesis by simp
  qed
qed

lemma registry_inv_Melt:
  assumes inv: "registry_inv s" and ret: "Melt e p s = Returned r s'"
  shows "registry_inv s'"
proof -
  from ret obtain a b where ab: "p = Some a" "heap s a = Some b"
    by (cases p; cases "heap s (the p)") (auto simp: Melt_def deref_def)
  have "s' = s \<or> (alive b \<and> (\<exists>tr. s' = s\<lparr>trace := tr, heap := (heap s)(a \<mapsto> b\<lparr>mutable := True\<rparr>)\<rparr>))"
    using ret ab
    by (auto simp: Melt_def deref_def then_do_Returned check_err_Returned Protect_ok assign_Returned
        split: if_splits)
  then show ?thesis
  proof
    assume "s' = s" with inv show ?thesis by simp
  next
    assume "alive b \<and> (\<exists>tr. s' = s\<lparr>trace := tr, heap := (heap s)(a \<mapsto> b\<lparr>mutable := True\<rparr>)\<rparr>)"
    then obtain tr where s': "alive b" "s' = s\<lparr>trace := tr, heap := (heap s)(a \<mapsto> b\<lparr>mutable := True\<rparr>)\<rparr>"
      by blast
    have "is_alive s' x = is_alive s x" for x using s' ab by (simp add: is_alive_def)
    from registry_inv_cong[of s' s, OF _ _ _ _ this] s' inv show ?thesis by simp
  qed
qed

lemma registry_inv_Destroy:
  assumes inv: "registry_inv s" and ret: "DestroyBuffer e p s = Returned r s'"
  shows "registry_inv s'"
proof -
  from ret obtain a b where ab: "p = Some a" "heap s a = Some b"
    by (cases p; cases "heap s (the p)") (auto simp: DestroyBuffer_def deref_def)
  show ?thesis
  proof (cases "alive b")
    case False
    with ret ab have "s' = s" by (simp add: Destroy_dead)
    with inv show ?thesis by simp
  next
    case True
    let ?s1 = "s\<lparr>trace := trace s @ [EvProtect (memory b) ReadWrite]\<rparr>"
    let ?s2 = "BufferList_Remove (Some a) ?s1"
    from ret ab True obtain s3 s4 s5 where
      s3: "crypto_MemClr (memory b) ?s2 = Some s3"
      and s4: "memcall_Unlock e (inner b) s3 = (None, s4)"
      and s5: "memcall_Free e (memory b) s4 = (None, s5)"
      and h5: "\<exists>b5. heap s5 a = Some b5 \<and> s' = s5\<lparr>heap := (heap s5)(a \<mapsto> b5\<lparr>alive := False, mutable := False,
          Data := None, memory := None, preguard := None, postguard := None,
          canaryref := None, canaryval := None\<rparr>)\<rparr>"
      by (auto simp: DestroyBuffer_def deref_def then_do_Returned check_err_Returned Protect_ok
          need_Returned need_state_Returned assign_Returned Panic_not_Returned split: if_splits)
    note f3 = MemClr_frame[OF s3]
    have f4: "heap s4 = heap s3" "buffers s4 = buffers s3" "parrays s4 = parrays s3"
      "next_array s4 = next_array s3" "next_buf s4 = next_buf s3"
      using s4 by (auto simp: memcall_Unlock_def)
    have f5: "heap s5 = heap s4" "buffers s5 = buffers s4" "parrays s5 = parrays s4"
      "next_array s5 = next_array s4" "next_buf s5 = next_buf s4"
      using s5 by (auto simp: memcall_Free_def Let_def split: if_splits option.splits)
    from h5 obtain b5 where b5: "heap s5 a = Some b5"
      and s': "s' = s5\<lparr>heap := (heap s5)(a \<mapsto> b5\<lparr>alive := False, mutable := False,
          Data := None, memory := None, preguard := None, postguard := None,
          canaryref := None, canaryval := None\<rparr>)\<rparr>" by blast
    have wf1: "reg_wf ?s1" using inv reg_wf_cong[of ?s1 s] by (simp add: registry_inv_def)
    have r1: "registry ?s1 = registry s" using slice_elems_cong[of ?s1 s "buffers s"] by simp
    have wf2: "reg_wf ?s2" by (rule reg_wf_Remove[OF wf1])
    have r2: "registry ?s2 = remove1 (Some a) (registry s)"
      using registry_Remove[OF wf1, of "Some a"] r1 by simp
    have same: "buffers s' = buffers ?s2" "parrays s' = parrays ?s2" "next_array s' = next_array ?s2"
      using s' f5 f4 f3 by simp_all
    have wf: "reg_wf s'" using reg_wf_cong[OF same] wf2 by simp
    have reg: "registry s' = remove1 (Some a) (registry s)"
      using slice_elems_cong[of s' ?s2 "buffers ?s2"] same r2 by simp
    have hp: "heap s5 = heap s" using f5 f4 f3 by (simp add: Remove_frame)
    have al: "is_alive s' x \<longleftrightarrow> x \<noteq> a \<and> is_alive s x" for x
      using s' hp by (simp add: is_alive_def)
    have nb: "next_buf s' = next_buf s" using s' f5 f4 f3 by (simp add: Remove_frame)
    from inv have old: "distinct (registry s)"
      "\<forall>p\<in>set (registry s). \<exists>x. p = Some x \<and> x < next_buf s \<and> is_alive s x"
      "\<forall>x. is_alive s x \<longrightarrow> Some x \<in> set (registry s)"
      by (simp_all add: registry_inv_def)
    have set: "set (registry s') = set (registry s) - {Some a}"
      using old(1) by (simp add: reg)
    have "\<forall>p\<in>set (registry s'). \<exists>x. p = Some x \<and> x < next_buf s' \<and> is_alive s' x"
    proof
      fix q assume "q \<in> set (registry s')"
      with set have q: "q \<in> set (registry s)" "q \<noteq> Some a" by auto
      with old(2) obtain x where "q = Some x" "x < next_buf s" "is_alive s x" by blast
      with q(2) show "\<exists>x. q = Some x \<and> x < next_buf s' \<and> is_alive s' x" using nb al by auto
    qed
    moreover have "\<forall>x. is_alive s' x \<longrightarrow> Some x \<in> set (registry s')"
      using al old(3) set by auto
    moreover have "distinct (registry s')" using old(1) by (simp add: reg)
    ultimately show ?thesis using wf by (simp add: registry_inv_def)
  qed
qed

lemma registry_inv_step:
  assumes "registry_inv s" "step e x s = Some s'"
  shows "registry_inv s'"
proof (cases x)
  case (OpNewBuffer n)
  with assms(2) obtain r where "NewBuffer e n s = Returned r s'"
    by (cases "NewBuffer e n s") (auto simp: completed_def)
  with assms(1) show ?thesis by (rule registry_inv_NewBuffer)
next
  case (OpFreeze p)
  with assms(2) obtain r where "Freeze e p s = Returned r s'"
    by (cases "Freeze e p s") (auto simp: completed_def)
  with assms(1) show ?thesis by (rule registry_inv_Freeze)
next
  case (OpMelt p)
  with assms(2) obtain r where "Melt e p s = Returned r s'"
    by (cases "Melt e p s") (auto simp: completed_def)
  with assms(1) show ?thesis by (rule registry_inv_Melt)
next
  case (OpDestroyBuffer p)
  with assms(2) obtain r where "DestroyBuffer e p s = Returned r s'"
    by (cases "DestroyBuffer e p s") (auto simp: completed_def)
  with assms(1) show ?thesis by (rule registry_inv_Destroy)
next
  case (OpGetBufferState p)
  with assms(2) have "s' = s"
    by (auto simp: GetBufferState_def completed_def split: option.splits)
  with assms(1) show ?thesis by simp
next
  case (OpPoke r i v)
  with assms(2) obtain m where s': "s' = s\<lparr>mem := m\<rparr>"
    by (auto simp: poke_def split: option.splits if_splits)
  have "is_alive s' a = is_alive s a" for a by (simp add: s' is_alive_def)
  from registry_inv_cong[of s' s, OF _ _ _ _ this] s' assms(1) show ?thesis by simp
qed

lemma registry_inv_run:
  "registry_inv s \<Longrightarrow> run e xs s = Some s' \<Longrightarrow> registry_inv s'"
proof (induction xs arbitrary: s)
  case Nil
  then show ?case by simp
next
  case (Cons x xs)
  from Cons.prems(2) obtain s1 where s1: "step e x s = Some s1" "run e xs s1 = Some s'"
    by (auto split: option.splits)
  from registry_inv_step[OF Cons.prems(1) s1(1)] s1(2) show ?case by (rule Cons.IH)
qed

lemmas exec_destroy_defs = step.simps run.simps completed_def Freeze_def Melt_def DestroyBuffer_def
  deref_def crypto_Equal_def crypto_MemClr_def memcall_Unlock_def memcall_Free_def
  BufferList_Remove_def shift_down_def slice_elems_def BufferList_Exists_def is_alive_def

section \<open>The claims\<close>

text \<open>
  Claim C1. After every successful \<^verbatim>\<open>NewBuffer(sz)\<close> the size is at least 1 and the new
  buffer lies in one region \<open>r\<close> of \<open>2 * P + L\<close> bytes, where \<open>P\<close> is the page size and
  \<open>L\<close>, the inner length, is \<^verbatim>\<open>roundToPageSize(sz + 32)\<close>, the least multiple of \<open>P\<close> not
  below \<open>sz + 32\<close> (so \<open>L = P\<close> for \<open>sz = P - 32\<close> and \<open>L = 2 * P\<close> for \<open>sz = P - 31\<close>):
  \<^verbatim>\<open>memory\<close> is the whole region, \<^verbatim>\<open>preguard\<close> its first \<open>P\<close> bytes, \<^verbatim>\<open>inner\<close> the next
  \<open>L\<close> bytes, \<^verbatim>\<open>postguard\<close> its last \<open>P\<close> bytes, and \<^verbatim>\<open>Data\<close> the last \<open>sz\<close> bytes of
  \<^verbatim>\<open>inner\<close>.
\<close>

theorem NewBuffer_layout:
  assumes "NewBuffer e sz s = Returned (Some a, None) s'"
    and "is_int64 sz" and "page_ok e"
  shows "\<exists>b r bytes. heap s' a = Some b \<and> 1 \<le> sz \<and>
     int (slice_len (Data b)) = sz \<and>
     int (slice_len (inner b)) = roundToPageSize e (go_add sz 32) \<and>
     roundToPageSize e (go_add sz 32) = roundUp (sz + 32) (pageSize e) \<and>
     (sz = pageSize e - 32 \<longrightarrow> int (slice_len (inner b)) = pageSize e) \<and>
     (sz = pageSize e - 31 \<longrightarrow> int (slice_len (inner b)) = 2 * pageSize e) \<and>
     mem s' r = Some bytes \<and>
     int (length bytes) = 2 * pageSize e + int (slice_len (inner b)) \<and>
     memory b = Some \<lparr>sp_region = r, sp_off = 0, sp_len = length bytes\<rparr> \<and>
     preguard b = Some \<lparr>sp_region = r, sp_off = 0, sp_len = nat (pageSize e)\<rparr> \<and>
     inner b = Some \<lparr>sp_region = r, sp_off = nat (pageSize e),
                    sp_len = nat (roundUp (sz + 32) (pageSize e))\<rparr> \<and>
     postguard b = Some \<lparr>sp_region = r, sp_off = length bytes - nat (pageSize e),
                    sp_len = nat (pageSize e)\<rparr> \<and>
     Data b = Some \<lparr>sp_region = r,
                   sp_off = nat (pageSize e) + nat (roundUp (sz + 32) (pageSize e)) - nat sz,
                   sp_len = nat sz\<rparr>"
proof -
  let ?P = "pageSize e"
  let ?L = "roundUp (sz + 32) ?P"
  from assms(1) obtain s1 where sz: "1 \<le> sz"
    and ret: "NewBuffer_construct e sz s = Returned a s1"
    and s': "s' = BufferList_Add e (Some a) s1"
    by (auto simp: NewBuffer_Returned)
  note cl = construct_layout[OF ret sz assms(2) assms(3)]
  from cl(12) obtain bytes where bytes: "mem s1 = (mem s)(next_region s \<mapsto> bytes)"
    "int (length bytes) = 2 * ?P + ?L" by blast
  from assms(3) have P: "0 < ?P" by (simp add: page_ok_def)
  from roundUp_bounds[OF P, of "sz + 32"] have L: "sz + 32 \<le> ?L" "?L < sz + 32 + ?P" "?P dvd ?L"
    by simp_all
  have "(?P - 1) div ?P = 0" using P by (simp add: div_pos_pos_trivial)
  with div_add_self1[of ?P "?P - 1"] P have "(?P + (?P - 1)) div ?P = 1" by simp
  moreover have "?P - 32 + 32 + ?P - 1 = ?P + (?P - 1)" by simp
  ultimately have Lp: "sz = ?P - 32 \<longrightarrow> ?L = ?P" by (simp only: roundUp_def) simp
  have "(?P + ?P) div ?P = 2" using P by simp
  moreover have "?P - 31 + 32 + ?P - 1 = ?P + ?P" by simp
  ultimately have Lq: "sz = ?P - 31 \<longrightarrow> ?L = 2 * ?P" by (simp only: roundUp_def) simp
  from bytes(2) P L sz have len: "length bytes = nat (2 * ?P + ?L)" by simp
  let ?b = "spec_layout (next_region s) ?P ?L sz"
  have h: "heap s' a = Some ?b" using cl(2) s' by (simp add: Add_frame)
  have m: "mem s' (next_region s) = Some bytes" using bytes s' by (simp add: Add_frame)
  have offs: "nat (2 * ?P + ?L) - nat ?P = nat (?P + ?L)"
    "nat ?P + nat ?L - nat sz = nat (?P + ?L - sz)"
    using P L sz by simp_all
  show ?thesis
    apply (rule exI[of _ ?b], rule exI[of _ "next_region s"], rule exI[of _ bytes])
    using h m sz cl(9) Lp Lq bytes(2) P L len offs
    by (simp add: spec_layout_def slice_len_def)
qed

theorem NewBuffer_layout_witness:
  "\<exists>s' b. NewBuffer granting_env 4064 init_state = Returned (Some 0, None) s' \<and>
      is_int64 4064 \<and> page_ok granting_env \<and> heap s' 0 = Some b \<and>
      int (slice_len (inner b)) = 4096 \<and> int (slice_len (Data b)) = 4064"
proof -
  from NewBuffer_granting obtain s'
    where r: "NewBuffer granting_env 4064 init_state = Returned (Some 0, None) s'" by blast
  have i: "is_int64 4064" by (simp add: is_int64_def)
  from NewBuffer_layout[OF r i granting_env_simps(4)] r i show ?thesis
    by (auto simp: granting_env_simps)
qed

text \<open>
  Claim C2, as amended. When \<^verbatim>\<open>DestroyBuffer\<close> is called on an alive buffer whose canary
  value differs from its canary reference, and the operating system grants making the
  allocation readable and writable, the call ends in the fatal handler: the handler is
  invoked once, with the message of the canary failure, as the last event of the call and
  after the wipes of inner regions of registered buffers, which leave the inner region of
  every registered buffer that is mapped all zero. None of the steps of a normal
  destruction was taken: no buffer object changed (the buffer is still alive and keeps its
  slices), the registry is as before, no region was unmapped, and neither an unlock nor a
  free was issued.
\<close>

theorem Destroy_canary_failure:
  assumes "heap s a = Some b" and "alive b"
    and "load s (canaryval b) = Some cv" and "load s (canaryref b) = Some cr" and "cv \<noteq> cr"
    and "os_ok e (trace s) (EvProtect (memory b) ReadWrite)"
  shows "\<exists>s' ws. DestroyBuffer e (Some a) s = Fatal s' \<and>
     trace s' = trace s @ [EvProtect (memory b) ReadWrite] @ ws @ [EvPanic (PanicMsg canary_msg)] \<and>
     (\<forall>ev\<in>set ws. inner_wipe s ev) \<and>
     panics (trace s') = panics (trace s) @ [PanicMsg canary_msg] \<and>
     (\<forall>a1 b1. Some a1 \<in> set (registry s) \<and> heap s a1 = Some b1 \<and> load s (inner b1) \<noteq> None \<longrightarrow>
        span_zero s' (inner b1)) \<and>
     heap s' = heap s \<and> is_alive s' a \<and> buffers s' = buffers s \<and> parrays s' = parrays s \<and>
     registry s' = registry s \<and> dom (mem s') = dom (mem s)"
proof -
  let ?s1 = "s\<lparr>trace := trace s @ [EvProtect (memory b) ReadWrite]\<rparr>"
  have D: "DestroyBuffer e (Some a) s = Panic (PanicMsg canary_msg) ?s1"
    by (rule Destroy_canary_mismatch[OF assms(1,2,6,3,4,5)])
  have m1: "mem ?s1 = mem s" by simp
  have r1: "registry ?s1 = registry s" using slice_elems_cong[of ?s1 s "buffers s"] by simp
  from Panic_Fatal[of "PanicMsg canary_msg" ?s1] obtain s' ws where
    P: "Panic (PanicMsg canary_msg) ?s1 = (Fatal s' :: unit outcome)"
    and fr: "heap s' = heap ?s1" "parrays s' = parrays ?s1" "buffers s' = buffers ?s1"
      "dom (mem s') = dom (mem ?s1)"
    and tr: "trace s' = trace ?s1 @ ws @ [EvPanic (PanicMsg canary_msg)]"
    and iw: "\<forall>ev\<in>set ws. inner_wipe ?s1 ev"
    and zs: "\<forall>a1 b1. Some a1 \<in> set (registry ?s1) \<and> heap ?s1 a1 = Some b1 \<and>
        load ?s1 (inner b1) \<noteq> None \<longrightarrow> span_zero s' (inner b1)"
    by blast
  have iw': "\<forall>ev\<in>set ws. inner_wipe s ev"
    using iw inner_wipe_cong[of ?s1 s] by simp
  have pw: "panics ws = []" by (rule panics_wipes[OF iw'])
  have pt: "panics (trace s') = panics (trace s) @ [PanicMsg canary_msg]"
    by (simp add: tr panics_append pw)
  have zs': "\<forall>a1 b1. Some a1 \<in> set (registry s) \<and> heap s a1 = Some b1 \<and> load s (inner b1) \<noteq> None \<longrightarrow>
        span_zero s' (inner b1)"
    using zs r1 load_mem_cong[OF m1] by simp
  have al: "is_alive s' a" using fr(1) assms(1,2) by (simp add: is_alive_def)
  have rg: "registry s' = registry s"
    using slice_elems_cong[of s' s "buffers s"] fr by simp
  show ?thesis
    apply (rule exI[of _ s'], rule exI[of _ ws])
    using D P tr iw' pt zs' fr al rg by simp
qed

theorem Destroy_canary_failure_witness:
  "\<exists>s'. is_alive (tampered granting_env) 0 \<and>
     DestroyBuffer granting_env (Some 0) (tampered granting_env) = Fatal s' \<and>
     panics (trace s') = [PanicMsg canary_msg] \<and> is_alive s' 0 \<and> registry s' = [Some 0] \<and>
     span_zero s' (inner (spec_layout 0 4096 4096 1))"
proof -
  let ?s = "tampered granting_env"
  let ?b = "spec_layout 0 4096 4096 1"
  note ts = tampered_state[of granting_env, OF env_grants(1,2) env_grants(3) env_grants(3)
      env_grants(3) env_grants(3)]
  note lc = load_canaries[OF ts(2) tampered_differs(2)]
  have al: "alive ?b" by (simp add: spec_layout_def)
  have tr: "panics (trace ?s) = []"
    using one_buffer_state(4)[of granting_env, OF env_grants(1,2) env_grants(3) env_grants(3)
      env_grants(3) env_grants(3)] by (simp add: ts(4))
  have li: "load ?s (inner ?b) \<noteq> None" using ts(2) tampered_differs(2)
    by (simp add: load_def spec_layout_def count_canary_def)
  from Destroy_canary_failure[OF ts(1) al lc(2) lc(1) tampered_differs(1) env_grants(3)]
  obtain s' where "DestroyBuffer granting_env (Some 0) ?s = Fatal s'"
    "panics (trace s') = panics (trace ?s) @ [PanicMsg canary_msg]"
    "\<forall>a1 b1. Some a1 \<in> set (registry ?s) \<and> heap ?s a1 = Some b1 \<and> load ?s (inner b1) \<noteq> None \<longrightarrow>
        span_zero s' (inner b1)"
    "is_alive s' 0" "registry s' = registry ?s"
    by blast
  with ts tr li al show ?thesis by (auto simp: is_alive_def)
qed

text \<open>
  Claim C2 as stated fails where the operating system refuses to make the allocation
  readable and writable: for the alive buffer with a tampered canary value the fatal handler
  is invoked with the protection error, not with the message of the canary failure.
\<close>

theorem Destroy_protect_failure_first:
  "is_alive (tampered guard_only_env) 0 \<and>
   crypto_Equal (tampered guard_only_env)
     (canaryval (the (heap (tampered guard_only_env) 0)))
     (canaryref (the (heap (tampered guard_only_env) 0))) = Some False \<and>
   fatal_value (DestroyBuffer guard_only_env (Some 0) (tampered guard_only_env))
     = Some (PanicErr ProtectFailed)"
proof -
  let ?s = "tampered guard_only_env"
  let ?b = "spec_layout 0 4096 4096 1"
  have g: "os_ok guard_only_env h (EvProtect sl NoAccess)" for h sl by (simp add: env_grants)
  note ts = tampered_state[of guard_only_env, OF env_grants(4,5) env_grants(6) env_grants(7)
      env_grants(8) g]
  note lc = load_canaries[OF ts(2) tampered_differs(2)]
  have al: "alive ?b" by (simp add: spec_layout_def)
  have no: "\<not> os_ok guard_only_env (trace ?s) (EvProtect (memory ?b) ReadWrite)"
    by (simp add: env_grants)
  from Destroy_protect_refused[OF ts(1) al no] lc tampered_differs ts(1) al
  show ?thesis by (simp add: is_alive_def crypto_Equal_def fatal_value_Panic)
qed

text \<open>
  Claim C3. In every buffer \<^verbatim>\<open>NewBuffer(sz)\<close> returns, \<^verbatim>\<open>canaryref\<close> is the 32 bytes at
  offset \<open>P - 32\<close> of the allocation, the last 32 bytes of the first guard page, \<^verbatim>\<open>canaryval\<close>
  is the 32 bytes at offset \<open>P + L - sz - 32\<close>, which end where \<^verbatim>\<open>Data\<close> begins, and in the
  state \<^verbatim>\<open>NewBuffer\<close> returns in both hold the same bytes, those drawn from the random
  source.
\<close>

theorem NewBuffer_canaries:
  assumes "NewBuffer e sz s = Returned (Some a, None) s'"
    and "is_int64 sz" and "page_ok e"
  shows "\<exists>b r n. heap s' a = Some b \<and>
     memory b = Some \<lparr>sp_region = r, sp_off = 0, sp_len = n\<rparr> \<and>
     preguard b = Some \<lparr>sp_region = r, sp_off = 0, sp_len = nat (pageSize e)\<rparr> \<and>
     32 \<le> pageSize e \<and>
     canaryref b = Some \<lparr>sp_region = r, sp_off = nat (pageSize e - 32), sp_len = 32\<rparr> \<and>
     canaryval b = Some \<lparr>sp_region = r,
         sp_off = nat (pageSize e + roundToPageSize e (go_add sz 32) - sz - 32), sp_len = 32\<rparr> \<and>
     Data b = Some \<lparr>sp_region = r,
         sp_off = nat (pageSize e + roundToPageSize e (go_add sz 32) - sz - 32) + 32, sp_len = nat sz\<rparr> \<and>
     load s' (canaryref b) = Some (fresh_canary e sz s) \<and>
     load s' (canaryval b) = load s' (canaryref b) \<and>
     crypto_Equal s' (canaryval b) (canaryref b) = Some True"
proof -
  let ?P = "pageSize e"
  let ?L = "roundUp (sz + 32) ?P"
  from assms(1) obtain s1 where sz: "1 \<le> sz"
    and ret: "NewBuffer_construct e sz s = Returned a s1"
    and s': "s' = BufferList_Add e (Some a) s1"
    by (auto simp: NewBuffer_Returned)
  note cl = construct_layout[OF ret sz assms(2) assms(3)]
  from assms(3) have P: "0 < ?P" by (simp add: page_ok_def)
  from roundUp_bounds[OF P, of "sz + 32"] have L: "sz + 32 \<le> ?L" by simp
  let ?b = "spec_layout (next_region s) ?P ?L sz"
  have h: "heap s' a = Some ?b" using cl(2) s' by (simp add: Add_frame)
  have ld: "load s' x = load s1 x" for x
    by (rule load_mem_cong) (simp add: s' Add_frame)
  have off: "nat (?P + ?L - sz - 32) + 32 = nat (?P + ?L - sz)" using P L sz by simp
  show ?thesis
    apply (rule exI[of _ ?b], rule exI[of _ "next_region s"], rule exI[of _ "nat (2 * ?P + ?L)"])
    using h cl(8) cl(9) cl(10) cl(11) off
    by (simp add: ld crypto_Equal_def) (simp add: spec_layout_def)
qed

theorem NewBuffer_canaries_witness:
  "\<exists>s' b r. NewBuffer granting_env 4064 init_state = Returned (Some 0, None) s' \<and>
      is_int64 4064 \<and> page_ok granting_env \<and> heap s' 0 = Some b \<and>
      canaryref b = Some \<lparr>sp_region = r, sp_off = 4064, sp_len = 32\<rparr> \<and>
      canaryval b = Some \<lparr>sp_region = r, sp_off = 4096, sp_len = 32\<rparr> \<and>
      load s' (canaryval b) = load s' (canaryref b)"
proof -
  from NewBuffer_granting obtain s'
    where r: "NewBuffer granting_env 4064 init_state = Returned (Some 0, None) s'" by blast
  have i: "is_int64 4064" by (simp add: is_int64_def)
  have w: "roundToPageSize granting_env (go_add 4064 32) = 4096"
    by (simp add: roundToPageSize_def go_add_def wrap64_def granting_env_simps)
  from NewBuffer_canaries[OF r i granting_env_simps(4)] r i w show ?thesis
    by (auto simp: granting_env_simps)
qed

text \<open>
  Claim C4. When the first \<^verbatim>\<open>DestroyBuffer\<close> on an alive buffer has returned, the canary
  it compared was intact and in the buffer \<^verbatim>\<open>alive\<close> and \<^verbatim>\<open>mutable\<close> are false and
  \<^verbatim>\<open>Data\<close>, \<^verbatim>\<open>memory\<close>, \<^verbatim>\<open>preguard\<close>, \<^verbatim>\<open>postguard\<close>, \<^verbatim>\<open>canaryref\<close> and
  \<^verbatim>\<open>canaryval\<close> are nil; the fatal handler was not invoked. Every \<^verbatim>\<open>DestroyBuffer\<close> on
  a buffer that is not alive, in any environment, returns in the state it was called in, so
  it invokes no handler and changes nothing. Two calls in a row are one call, whatever the
  first one does: the outcome and the state of \<^verbatim>\<open>Destroy(b); Destroy(b)\<close> are those of a
  single \<^verbatim>\<open>Destroy(b)\<close>.
\<close>

theorem Destroy_idempotent:
  "(heap s a = Some b \<and> alive b \<and> DestroyBuffer e (Some a) s = Returned () s1 \<longrightarrow>
      crypto_Equal s (canaryval b) (canaryref b) = Some True \<and>
      (\<exists>b1. heap s1 a = Some b1 \<and> \<not> alive b1 \<and> \<not> mutable b1 \<and> Data b1 = None \<and>
         memory b1 = None \<and> preguard b1 = None \<and> postguard b1 = None \<and>
         canaryref b1 = None \<and> canaryval b1 = None) \<and>
      GetBufferState (Some a) s1 = Returned \<lparr>IsMutable = False, IsDestroyed = True\<rparr> s1 \<and>
      panics (trace s1) = panics (trace s) \<and>
      (\<forall>e2. DestroyBuffer e2 (Some a) s1 = Returned () s1)) \<and>
   (heap s a = Some b \<and> \<not> alive b \<longrightarrow> DestroyBuffer e (Some a) s = Returned () s) \<and>
   then_do (DestroyBuffer e (Some a)) (\<lambda>u. DestroyBuffer e2 (Some a)) s
      = DestroyBuffer e (Some a) s"
proof (intro conjI impI)
  show "then_do (DestroyBuffer e (Some a)) (\<lambda>u. DestroyBuffer e2 (Some a)) s
      = DestroyBuffer e (Some a) s" by (rule Destroy_twice)
next
  assume "heap s a = Some b \<and> \<not> alive b"
  then show "DestroyBuffer e (Some a) s = Returned () s" by (simp add: Destroy_dead)
next
  assume A: "heap s a = Some b \<and> alive b \<and> DestroyBuffer e (Some a) s = Returned () s1"
  then have h: "heap s a = Some b" and al: "alive b"
    and ret: "DestroyBuffer e (Some a) s = Returned () s1" by simp_all
  note D = Destroy_Returned_D[OF h al ret]
  let ?b1 = "b\<lparr>alive := False, mutable := False, Data := None, memory := None, preguard := None,
               postguard := None, canaryref := None, canaryval := None\<rparr>"
  from D(2) have h1: "heap s1 a = Some ?b1" by simp
  show "crypto_Equal s (canaryval b) (canaryref b) = Some True" by (rule D(1))
  show "\<exists>b1. heap s1 a = Some b1 \<and> \<not> alive b1 \<and> \<not> mutable b1 \<and> Data b1 = None \<and>
         memory b1 = None \<and> preguard b1 = None \<and> postguard b1 = None \<and>
         canaryref b1 = None \<and> canaryval b1 = None"
    by (rule exI[of _ ?b1]) (simp add: h1)
  show "GetBufferState (Some a) s1 = Returned \<lparr>IsMutable = False, IsDestroyed = True\<rparr> s1"
    using h1 by (simp add: GetBufferState_def deref_def)
  show "panics (trace s1) = panics (trace s)" by (simp add: D(3) panics_append)
  show "\<forall>e2. DestroyBuffer e2 (Some a) s1 = Returned () s1"
    using Destroy_dead[OF h1] by simp
qed

theorem Destroy_idempotent_witness:
  "\<exists>s1. is_alive (one_buffer granting_env) 0 \<and>
     DestroyBuffer granting_env (Some 0) (one_buffer granting_env) = Returned () s1 \<and>
     \<not> is_alive s1 0 \<and> panics (trace s1) = panics (trace (one_buffer granting_env)) \<and>
     DestroyBuffer granting_env (Some 0) s1 = Returned () s1 \<and>
     GetBufferState (Some 0) s1 = Returned \<lparr>IsMutable = False, IsDestroyed = True\<rparr> s1"
proof -
  let ?s = "one_buffer granting_env"
  let ?b = "spec_layout 0 4096 4096 1"
  note ob = one_buffer_state[of granting_env, OF env_grants(1,2) env_grants(3) env_grants(3)
      env_grants(3) env_grants(3)]
  have len: "length count_canary = 32" by (simp add: count_canary_def)
  note lc = load_canaries[OF ob(2) len]
  have al: "alive ?b" by (simp add: spec_layout_def)
  from Destroy_intact[OF ob(1) al env_grants(3) lc(2) lc(1) lc(3) env_grants(3) env_grants(3)]
  obtain s1 where r: "DestroyBuffer granting_env (Some 0) ?s = Returned () s1"
    by blast
  from Destroy_idempotent[of ?s 0 ?b granting_env s1 granting_env] ob(1) al r
  show ?thesis by (auto simp: is_alive_def)
qed




text \<open>
  Claim C6. In every state a client reaches from the initial state by completed calls of
  \<^verbatim>\<open>NewBuffer\<close>, \<^verbatim>\<open>Freeze\<close>, \<^verbatim>\<open>Melt\<close> and \<^verbatim>\<open>DestroyBuffer\<close> (and by reading buffer states
  and writing bytes of mapped memory in between), in any environment, \<^verbatim>\<open>Exists\<close> finds a
  buffer in the registry if and only if the buffer is alive, the registry holds no buffer
  twice, and it does not hold the nil pointer.
\<close>

theorem registry_iff_alive:
  assumes "run e xs init_state = Some s"
  shows "(\<forall>a. BufferList_Exists s (Some a) \<longleftrightarrow> is_alive s a) \<and>
         \<not> BufferList_Exists s None \<and> distinct (registry s)"
proof -
  from registry_inv_run[OF registry_inv_init assms] have inv: "registry_inv s" .
  then have r: "\<forall>p\<in>set (registry s). \<exists>a. p = Some a \<and> a < next_buf s \<and> is_alive s a"
    "\<forall>a. is_alive s a \<longrightarrow> Some a \<in> set (registry s)" "distinct (registry s)"
    by (simp_all add: registry_inv_def)
  from r(1) have "None \<notin> set (registry s)" by auto
  moreover from r(1) r(2) have "\<forall>a. Some a \<in> set (registry s) \<longleftrightarrow> is_alive s a" by auto
  ultimately show ?thesis using r(3) by (simp add: BufferList_Exists_def exists_loop_set)
qed

theorem registry_iff_alive_witness:
  "\<exists>s. run granting_env [OpNewBuffer 1, OpFreeze (Some 0), OpNewBuffer 7, OpDestroyBuffer (Some 0)]
        init_state = Some s \<and>
      BufferList_Exists s (Some 1) \<and> is_alive s 1 \<and>
      \<not> BufferList_Exists s (Some 0) \<and> \<not> is_alive s 0"
proof -
  have "\<exists>s. run granting_env [OpNewBuffer 1, OpFreeze (Some 0), OpNewBuffer 7, OpDestroyBuffer (Some 0)]
        init_state = Some s \<and> is_alive s 1 \<and> \<not> is_alive s 0"
    by (simp add: exec_defs exec_destroy_defs granting_env_def)
  then obtain s where s: "run granting_env [OpNewBuffer 1, OpFreeze (Some 0), OpNewBuffer 7, OpDestroyBuffer (Some 0)]
        init_state = Some s" "is_alive s 1" "\<not> is_alive s 0" by blast
  from registry_iff_alive[OF s(1)] s show ?thesis by blast
qed

text \<open>
  Claim C7. \<^verbatim>\<open>NewBuffer\<close> with a size below 1 returns the nil buffer and
  \<^verbatim>\<open>ErrInvalidLength\<close> in the state it was called in: nothing is allocated, the registry
  and every other part of the state (the trace of system calls included) are unchanged. An
  error is returned by no other call: whenever \<^verbatim>\<open>NewBuffer\<close> returns an error, the size
  was below 1 and the error is \<^verbatim>\<open>ErrInvalidLength\<close>.
\<close>

theorem NewBuffer_invalid_length:
  "(sz < 1 \<longrightarrow> NewBuffer e sz s = Returned (None, Some ErrInvalidLength) s) \<and>
   (\<forall>p err s'. NewBuffer e sz s = Returned (p, Some err) s' \<longrightarrow>
       sz < 1 \<and> err = ErrInvalidLength \<and> p = None \<and> s' = s)"
  by (auto simp: NewBuffer_Returned)

theorem NewBuffer_invalid_length_witness:
  "(0::int) < 1 \<and> NewBuffer granting_env 0 init_state = Returned (None, Some ErrInvalidLength) init_state"
  using NewBuffer_invalid_length[of 0 granting_env init_state] by simp

text \<open>
  Claim C8, as amended. \<^verbatim>\<open>NewBuffer\<close> is the construction followed by \<^verbatim>\<open>buffers.Add\<close>
  as its last step, and in the state in which \<^verbatim>\<open>Add\<close> is called the alive flag and the
  mutable flag of the new buffer are already true while the list of the registry and its
  backing arrays are still those of the state \<^verbatim>\<open>NewBuffer\<close> was called in; \<^verbatim>\<open>Add\<close>
  itself changes no buffer. The flags are set before the buffer is registered.
\<close>

theorem NewBuffer_alive_before_Add:
  "(1 \<le> sz \<longrightarrow> NewBuffer e sz s =
       then_do (NewBuffer_construct e sz) (\<lambda>a s1. Returned (Some a, None) (BufferList_Add e (Some a) s1)) s) \<and>
   (NewBuffer_construct e sz s = Returned a s1 \<longrightarrow>
       is_alive s1 a \<and> (\<exists>b. heap s1 a = Some b \<and> alive b \<and> mutable b) \<and>
       GetBufferState (Some a) s1 = Returned \<lparr>IsMutable = True, IsDestroyed = False\<rparr> s1 \<and>
       buffers s1 = buffers s \<and> parrays s1 = parrays s \<and> registry s1 = registry s \<and>
       heap (BufferList_Add e (Some a) s1) = heap s1)"
proof -
  have "is_alive s1 a \<and> (\<exists>b. heap s1 a = Some b \<and> alive b \<and> mutable b) \<and>
       GetBufferState (Some a) s1 = Returned \<lparr>IsMutable = True, IsDestroyed = False\<rparr> s1 \<and>
       buffers s1 = buffers s \<and> parrays s1 = parrays s \<and> registry s1 = registry s \<and>
       heap (BufferList_Add e (Some a) s1) = heap s1"
    if ret: "NewBuffer_construct e sz s = Returned a s1"
  proof -
    note f = construct_frame[OF ret]
    from f(2) obtain b where b: "heap s1 a = Some b" "alive b" "mutable b" by auto
    then have "is_alive s1 a" by (simp add: is_alive_def)
    moreover have "registry s1 = registry s"
      using slice_elems_cong[of s1 s "buffers s"] f by simp
    moreover have "GetBufferState (Some a) s1 = Returned \<lparr>IsMutable = True, IsDestroyed = False\<rparr> s1"
      using b by (simp add: GetBufferState_def deref_def)
    moreover have "\<exists>b. heap s1 a = Some b \<and> alive b \<and> mutable b" using b by blast
    ultimately show ?thesis using f by (simp add: Add_frame)
  qed
  then have "NewBuffer_construct e sz s = Returned a s1 \<longrightarrow>
       is_alive s1 a \<and> (\<exists>b. heap s1 a = Some b \<and> alive b \<and> mutable b) \<and>
       GetBufferState (Some a) s1 = Returned \<lparr>IsMutable = True, IsDestroyed = False\<rparr> s1 \<and>
       buffers s1 = buffers s \<and> parrays s1 = parrays s \<and> registry s1 = registry s \<and>
       heap (BufferList_Add e (Some a) s1) = heap s1"
    by blast
  moreover have "1 \<le> sz \<longrightarrow> NewBuffer e sz s =
       then_do (NewBuffer_construct e sz) (\<lambda>a s1. Returned (Some a, None) (BufferList_Add e (Some a) s1)) s"
    by (simp add: NewBuffer_def)
  ultimately show ?thesis by blast
qed

theorem NewBuffer_alive_before_Add_witness:
  "\<exists>s1 b. NewBuffer_construct granting_env 4064 init_state = Returned 0 s1 \<and> is_alive s1 0 \<and>
     heap s1 0 = Some b \<and> alive b \<and> mutable b \<and> registry s1 = []"
proof -
  from construct_granting obtain s1
    where r: "NewBuffer_construct granting_env 4064 init_state = Returned 0 s1" by blast
  have "registry init_state = []" by (simp add: slice_elems_def init_state_def)
  with NewBuffer_alive_before_Add[of 4064 granting_env init_state 0 s1] r show ?thesis by auto
qed

text \<open>
  Claim C8 as stated fails: in the state in which \<^verbatim>\<open>NewBuffer(1)\<close>, called in the initial
  state, calls \<^verbatim>\<open>buffers.Add\<close>, the new buffer is alive and \<^verbatim>\<open>Exists\<close> does not find it in
  the registry.
\<close>

theorem NewBuffer_registers_alive_buffer:
  "returned (NewBuffer_construct granting_env 1 init_state) = Some 0 \<and>
   is_alive (the (completed (NewBuffer_construct granting_env 1 init_state))) 0 \<and>
   \<not> BufferList_Exists (the (completed (NewBuffer_construct granting_env 1 init_state))) (Some 0)"
  by (simp add: exec_defs granting_env_def returned_def completed_def is_alive_def
        BufferList_Exists_def slice_elems_def)

text \<open>
  Claim C9. \<^verbatim>\<open>Empty\<close> replaces the list of the registry with an empty one and returns
  the previous contents in insertion order: after the buffers \<open>ps\<close> were added one by one,
  the returned slice shows the old contents followed by \<open>ps\<close>. A second \<^verbatim>\<open>Empty\<close> right
  after it returns an empty slice, and after the first one \<^verbatim>\<open>Exists\<close> is false for every
  buffer.
\<close>

theorem Empty_returns_insertion_order:
  assumes "reg_wf s"
    and "s1 = fold (BufferList_Add e) ps s"
    and "BufferList_Empty s1 = (snap, s2)"
    and "BufferList_Empty s2 = (snap2, s3)"
  shows "registry s1 = registry s @ ps \<and> slice_elems s2 snap = registry s @ ps \<and>
         buffers s2 = None \<and> registry s2 = [] \<and> slice_elems s3 snap2 = [] \<and>
         (\<forall>p. \<not> BufferList_Exists s2 p)"
proof -
  from fold_Add[OF assms(1), of e ps] assms(2)
  have wf1: "reg_wf s1" and r1: "registry s1 = registry s @ ps" by simp_all
  from Empty_snapshot[OF wf1 assms(3)]
  have e2: "slice_elems s2 snap = registry s1" "buffers s2 = None" "registry s2 = []" "reg_wf s2"
    by simp_all
  from Empty_snapshot(1)[OF e2(4) assms(4)] e2(3) have "slice_elems s3 snap2 = []" by simp
  moreover have "\<forall>p. \<not> BufferList_Exists s2 p"
    using e2(3) by (simp add: BufferList_Exists_def)
  ultimately show ?thesis using r1 e2 by simp
qed

theorem Empty_returns_insertion_order_witness:
  "reg_wf init_state \<and>
   slice_elems (snd (BufferList_Empty (fold (BufferList_Add granting_env) [Some 0, Some 1, Some 2] init_state)))
     (fst (BufferList_Empty (fold (BufferList_Add granting_env) [Some 0, Some 1, Some 2] init_state)))
   = [Some 0, Some 1, Some 2]"
proof -
  have wf: "reg_wf init_state" by (simp add: reg_wf_def init_state_def)
  have r0: "registry init_state = []" by (simp add: slice_elems_def init_state_def)
  from Empty_returns_insertion_order[OF wf refl surjective_pairing surjective_pairing,
      of granting_env "[Some 0, Some 1, Some 2]"] r0 wf
  show ?thesis by simp
qed

text \<open>
  Claim C10. The slice \<^verbatim>\<open>Empty\<close> returns is a copy in a backing array of its own: the
  array is not the one the registry's list used, it shows the previous contents, and no
  sequence of later \<^verbatim>\<open>Add\<close>, \<^verbatim>\<open>Remove\<close> and \<^verbatim>\<open>Empty\<close> calls on the registry changes
  that array or what the returned slice shows.
\<close>

theorem Empty_snapshot_not_aliased:
  assumes "reg_wf s"
    and "BufferList_Empty s = (snap, s1)"
  shows "\<exists>h. snap = Some h \<and>
           (\<forall>h0. buffers s = Some h0 \<longrightarrow> ps_arr h0 \<noteq> ps_arr h) \<and>
           slice_elems s1 snap = registry s \<and>
           parrays (reg_run e xs s1) (ps_arr h) = parrays s1 (ps_arr h) \<and>
           slice_elems (reg_run e xs s1) snap = registry s"
proof -
  from Empty_apart[OF assms] obtain h where h: "snap = Some h" "apart (ps_arr h) s1"
    "\<forall>h0. buffers s = Some h0 \<longrightarrow> ps_arr h0 \<noteq> ps_arr h" by auto
  from apart_run[OF h(2), of e xs]
  have keep: "parrays (reg_run e xs s1) (ps_arr h) = parrays s1 (ps_arr h)" .
  from Empty_snapshot(1)[OF assms] have old: "slice_elems s1 snap = registry s" .
  from keep h(1) have "slice_elems (reg_run e xs s1) snap = slice_elems s1 snap"
    by (simp add: slice_elems_def)
  with h keep old show ?thesis by simp
qed

theorem Empty_snapshot_not_aliased_witness:
  "reg_wf two_registered \<and>
   slice_elems (reg_run granting_env [RegAdd (Some 2), RegRemove (Some 2), RegAdd (Some 3), RegEmpty]
       (snd (BufferList_Empty two_registered)))
     (fst (BufferList_Empty two_registered)) = [Some 0, Some 1]"
proof -
  have wf0: "reg_wf init_state" by (simp add: reg_wf_def init_state_def)
  have r0: "registry init_state = []" by (simp add: slice_elems_def init_state_def)
  from fold_Add[OF wf0, of granting_env "[Some 0, Some 1]"] r0
  have wf: "reg_wf two_registered" and r: "registry two_registered = [Some 0, Some 1]"
    by (simp_all add: two_registered_def)
  from Empty_snapshot_not_aliased[OF wf surjective_pairing,
      of granting_env "[RegAdd (Some 2), RegRemove (Some 2), RegAdd (Some 3), RegEmpty]"] r wf
  show ?thesis by auto
qed

end
